theory Spec2Isabelle
  imports Main "HOL-Library.List_Lexorder" "HOL-Library.Char_ord" "HOL-Library.Multiset"
begin

section \<open>Python values used by the program\<close>

text \<open>
  Exceptions are values. Only the exception classes that the modelled functions can raise
  are listed.
\<close>

datatype py_error =
  ValueError | IndexError | AttributeError | FileNotFoundError | UnpicklingError

text \<open>
  \<^verbatim>\<open>scipy.special.comb(N, k, exact=True)\<close> on Python integers: the binomial coefficient,
  and 0 when \<open>k > N\<close>, \<open>N < 0\<close> or \<open>k < 0\<close>. The module-level table \<^verbatim>\<open>_comb_lookup\<close>
  starts empty, is written by \<^verbatim>\<open>comb\<close> alone and stores exactly the value computed for
  each key, so \<^verbatim>\<open>comb\<close> returns the same number with and without it.
\<close>

definition comb :: "int \<Rightarrow> int \<Rightarrow> int" where
  "comb N k = (if k > N \<or> N < 0 \<or> k < 0 then 0 else int (nat N choose nat k))"

text \<open>
  \<^verbatim>\<open>itertools.combinations(iterable, r)\<close>: the \<open>r\<close>-element subsequences of the iterable in
  lexicographic order of positions; \<^verbatim>\<open>ValueError\<close> for a negative \<open>r\<close>.
\<close>

fun combinations_nat :: "'a list \<Rightarrow> nat \<Rightarrow> 'a list list" where
  "combinations_nat xs 0 = [[]]"
| "combinations_nat [] (Suc r) = []"
| "combinations_nat (x # xs) (Suc r) =
     map ((#) x) (combinations_nat xs r) @ combinations_nat xs (Suc r)"

definition combinations :: "'a list \<Rightarrow> int \<Rightarrow> py_error + 'a list list" where
  "combinations xs r = (if r < 0 then Inl ValueError else Inr (combinations_nat xs (nat r)))"

text \<open>
  \<^verbatim>\<open>itertools.product(*iterables)\<close>: the first coordinate varies slowest. With
  \<^verbatim>\<open>repeat=n\<close> the one iterable is taken \<open>n\<close> times.
\<close>

fun itertools_product :: "'a list list \<Rightarrow> 'a list list" where
  "itertools_product [] = [[]]"
| "itertools_product (xs # xss) =
     concat (map (\<lambda>x. map ((#) x) (itertools_product xss)) xs)"

definition product_repeat :: "'a list \<Rightarrow> nat \<Rightarrow> 'a list list" where
  "product_repeat xs n = itertools_product (replicate n xs)"

text \<open>
  Python leaves the iteration order of a \<^verbatim>\<open>set\<close> unspecified. Wherever the program
  iterates over a set of cards the model iterates in ascending order of the cards.
\<close>

definition iter :: "'a::linorder set \<Rightarrow> 'a list" where
  "iter S = sorted_list_of_set S"

section \<open>HandInformation\<close>

text \<open>
  A constraint is any iterable of cards (the program appends sets, lists and tuples); it
  is modelled by the sequence its iteration yields.
\<close>

record 'a HandInformation =
  hand_size :: int
  known_cards :: "'a set"
  possible_cards :: "'a set"
  constraint_list :: "'a list list"

definition num_unknown_cards :: "'a HandInformation \<Rightarrow> int" where
  "num_unknown_cards h = hand_size h - int (card (known_cards h))"

definition removePossibleCard :: "'a HandInformation \<Rightarrow> 'a \<Rightarrow> 'a HandInformation" where
  "removePossibleCard h c = h\<lparr>possible_cards := possible_cards h - {c}\<rparr>"

definition addKnownCard :: "'a HandInformation \<Rightarrow> 'a \<Rightarrow> 'a HandInformation" where
  "addKnownCard h c = removePossibleCard (h\<lparr>known_cards := insert c (known_cards h)\<rparr>) c"

definition addConstraint :: "'a HandInformation \<Rightarrow> 'a list \<Rightarrow> 'a HandInformation" where
  "addConstraint h constraint = h\<lparr>constraint_list := constraint_list h @ [constraint]\<rparr>"

text \<open>The loop \<^verbatim>\<open>for c in cards: hand.removePossibleCard(c)\<close>.\<close>

definition removePossibleCards :: "'a HandInformation \<Rightarrow> 'a list \<Rightarrow> 'a HandInformation" where
  "removePossibleCards h cs = fold (\<lambda>c h'. removePossibleCard h' c) cs h"

definition meets_constraints :: "'a set \<Rightarrow> 'a list list \<Rightarrow> bool" where
  "meets_constraints known cl = list_all (\<lambda>constraint. list_ex (\<lambda>c. c \<in> known) constraint) cl"

definition getPossibleHands ::
  "'a::linorder HandInformation \<Rightarrow> py_error + 'a HandInformation list" where
  "getPossibleHands h =
     (case combinations (iter (possible_cards h)) (num_unknown_cards h) of
        Inl e \<Rightarrow> Inl e
      | Inr cs \<Rightarrow>
          Inr (filter (\<lambda>hand. meets_constraints (known_cards hand) (constraint_list h))
                 (map (\<lambda>new_cards.
                        \<lparr>hand_size = hand_size h,
                         known_cards = known_cards h \<union> set new_cards,
                         possible_cards = {},
                         constraint_list = []\<rparr>) cs)))"

definition numPossibleHands :: "'a HandInformation \<Rightarrow> py_error + int" where
  "numPossibleHands h =
     (if length (constraint_list h) > 0 then Inl ValueError
      else Inr (comb (int (card (possible_cards h))) (num_unknown_cards h)))"

text \<open>
  \<^verbatim>\<open>__lt__\<close> compares the two hands by this number; \<^verbatim>\<open>sorted\<close> is a stable sort that
  uses \<^verbatim>\<open>__lt__\<close> only, so it is the stable sort by this key.
\<close>

definition lt_key :: "'a HandInformation \<Rightarrow> int" where
  "lt_key h = comb (int (card (possible_cards h))) (num_unknown_cards h)"

definition sorted_hands :: "'a HandInformation list \<Rightarrow> 'a HandInformation list" where
  "sorted_hands hand_infos = sort_key lt_key hand_infos"

section \<open>GameStateCounter\<close>

text \<open>
  The cache maps a key (a tuple of integers) to a count. The counter object also records
  the size of the cache at the last load and the path of the cache file.
\<close>

type_synonym cache = "int list \<rightharpoonup> int"

text \<open>
  The inner loop of \<^verbatim>\<open>getCacheKey\<close>: starting from the superset, hand \<open>ix\<close> is
  removed from the subset when its term is 0 and intersected with it when its term is 1.
\<close>

definition region :: "'a set \<Rightarrow> 'a HandInformation list \<Rightarrow> nat list \<Rightarrow> 'a set" where
  "region element_superset order_to_add subset_terms =
     fold (\<lambda>(ix, t) subset.
             if t = 0 then subset - possible_cards (order_to_add ! ix)
             else if t = 1 then subset \<inter> possible_cards (order_to_add ! ix)
             else subset)
          (enumerate 0 subset_terms) element_superset"

definition getCacheKey :: "'a HandInformation list \<Rightarrow> int list" where
  "getCacheKey hand_infos =
     (let order_to_add = sorted_hands hand_infos;
          key = map num_unknown_cards order_to_add;
          element_superset = fold (\<lambda>info s. s \<union> possible_cards info) order_to_add {}
      in key @ map (\<lambda>subset_terms. int (card (region element_superset order_to_add subset_terms)))
                   (product_repeat [0, 1] (length order_to_add)))"

text \<open>
  The selection loop of \<^verbatim>\<open>countPossibleStates\<close>. The state is the dictionary
  \<^verbatim>\<open>hand_to_iterate\<close>: the index and the smallest number of hands seen so far, \<open>None\<close>
  standing for \<^verbatim>\<open>float('inf')\<close>.
\<close>

fun select_hand ::
  "(nat \<times> 'a HandInformation) list \<Rightarrow> nat \<times> int option \<Rightarrow> py_error + (nat \<times> int option)" where
  "select_hand [] st = Inr st"
| "select_hand ((ix, info) # rest) (idx, num) =
     (case numPossibleHands info of
        Inl e \<Rightarrow> Inl e
      | Inr n \<Rightarrow>
          if (case num of None \<Rightarrow> True | Some m \<Rightarrow> n < m)
          then select_hand rest (ix, Some n)
          else select_hand rest (idx, num))"

definition new_args :: "'a HandInformation list \<Rightarrow> nat \<Rightarrow> 'a set \<Rightarrow> 'a HandInformation list" where
  "new_args hand_infos idx hand_set =
     map (\<lambda>(ix, info).
            \<lparr>hand_size = hand_size info,
             known_cards = known_cards info,
             possible_cards = possible_cards info - hand_set,
             constraint_list = []\<rparr>)
         (filter (\<lambda>(ix, info). ix \<noteq> idx) (enumerate 0 hand_infos))"

text \<open>
  A \<^verbatim>\<open>for\<close> loop that adds the result of a call to a running count; the call reads and
  writes the cache and may raise.
\<close>

fun sum_loop ::
  "('c \<Rightarrow> 'x \<Rightarrow> py_error + (int \<times> 'c)) \<Rightarrow> 'x list \<Rightarrow> int \<Rightarrow> 'c \<Rightarrow> py_error + (int \<times> 'c)" where
  "sum_loop f [] count' c = Inr (count', c)"
| "sum_loop f (x # xs) count' c =
     (case f c x of
        Inl e \<Rightarrow> Inl e
      | Inr (v, c') \<Rightarrow> sum_loop f xs (count' + v) c')"

lemma sum_loop_cong [fundef_cong]:
  assumes "xs = ys" "count' = count''" "c = c'"
    and "\<And>c0 x. x \<in> set ys \<Longrightarrow> f c0 x = g c0 x"
  shows "sum_loop f xs count' c = sum_loop g ys count'' c'"
  unfolding assms(1-3) using assms(4)
  by (induction ys arbitrary: count'' c') (auto split: sum.splits)

lemma filter_enumerate_neq:
  "n \<le> idx \<Longrightarrow> map snd (filter (\<lambda>(ix, info). ix \<noteq> idx) (enumerate n xs))
     = take (idx - n) xs @ drop (Suc (idx - n)) xs"
proof (induction xs arbitrary: n)
  case Nil
  then show ?case by simp
next
  case (Cons x xs)
  show ?case
  proof (cases "n = idx")
    case True
    have "filter (\<lambda>(ix, info). ix \<noteq> idx) (enumerate (Suc idx) xs) = enumerate (Suc idx) xs"
      by (rule filter_True) (auto simp: in_set_enumerate_eq)
    with True show ?thesis by simp
  next
    case False
    with Cons.prems have "Suc n \<le> idx" by simp
    moreover from this have "idx - n = Suc (idx - Suc n)" by arith
    ultimately show ?thesis using Cons.IH[of "Suc n"] False
      by simp
  qed
qed

lemma new_args_eq:
  "new_args hand_infos idx S =
     map (\<lambda>info. \<lparr>hand_size = hand_size info, known_cards = known_cards info,
                   possible_cards = possible_cards info - S, constraint_list = []\<rparr>)
         (take idx hand_infos @ drop (Suc idx) hand_infos)"
proof -
  have "new_args hand_infos idx S =
     map (\<lambda>info. \<lparr>hand_size = hand_size info, known_cards = known_cards info,
                   possible_cards = possible_cards info - S, constraint_list = []\<rparr>)
       (map snd (filter (\<lambda>(ix, info). ix \<noteq> idx) (enumerate 0 hand_infos)))"
    by (simp add: new_args_def case_prod_unfold comp_def)
  then show ?thesis by (simp add: filter_enumerate_neq)
qed

lemma length_new_args:
  "idx < length hand_infos \<Longrightarrow> length (new_args hand_infos idx S) = length hand_infos - 1"
  by (simp add: new_args_eq)

text \<open>
  \<^verbatim>\<open>countPossibleStates\<close>, with the cache passed in and returned. \<^verbatim>\<open>hand_infos[idx]\<close>
  raises \<^verbatim>\<open>IndexError\<close> when the index is out of range, which happens for the empty list.
\<close>

function countPossibleStates ::
  "cache \<Rightarrow> 'a::linorder HandInformation list \<Rightarrow> py_error + (int \<times> cache)" where
  "countPossibleStates cache hand_infos =
     (if \<exists>h \<in> set hand_infos. length (constraint_list h) > 0 then Inl ValueError
      else if length hand_infos = 1 then
        (case numPossibleHands (hand_infos ! 0) of
           Inl e \<Rightarrow> Inl e
         | Inr n \<Rightarrow> Inr (n, cache))
      else
        let key = getCacheKey hand_infos in
        case cache key of
          Some v \<Rightarrow> Inr (v, cache)
        | None \<Rightarrow>
            (case select_hand (enumerate 0 hand_infos) (0, None) of
               Inl e \<Rightarrow> Inl e
             | Inr (idx, num) \<Rightarrow>
                 if idx \<ge> length hand_infos then Inl IndexError
                 else
                   (case combinations (iter (possible_cards (hand_infos ! idx)))
                                      (num_unknown_cards (hand_infos ! idx)) of
                      Inl e \<Rightarrow> Inl e
                    | Inr hands \<Rightarrow>
                        (case sum_loop
                                (\<lambda>cache' hand.
                                   countPossibleStates cache' (new_args hand_infos idx (set hand)))
                                hands 0 cache of
                           Inl e \<Rightarrow> Inl e
                         | Inr (count', cache') \<Rightarrow> Inr (count', cache'(key \<mapsto> count'))))))"
  by pat_completeness auto
termination
  by (relation "measure (\<lambda>(cache, hand_infos). length hand_infos)")
     (auto simp: length_new_args)

declare countPossibleStates.simps [simp del]

section \<open>Resolving the constraints of one hand\<close>

text \<open>
  The \<^verbatim>\<open>for card in constraint\<close> loop of \<^verbatim>\<open>satisfyConstraints\<close>. \<open>popped\<close> is the deep
  copy of the hand with its last constraint removed, made afresh in every iteration;
  \<open>recurse\<close> is the recursive call.
\<close>

fun branch_loop ::
  "('a HandInformation \<Rightarrow> 'a HandInformation list) \<Rightarrow> 'a HandInformation \<Rightarrow> 'a list \<Rightarrow> 'a list
     \<Rightarrow> 'a HandInformation list \<Rightarrow> 'a HandInformation list" where
  "branch_loop recurse popped [] old_cards hand_infos = hand_infos"
| "branch_loop recurse popped (crd # rest) old_cards hand_infos =
     (if crd \<notin> known_cards popped \<and> crd \<notin> possible_cards popped
      then branch_loop recurse popped rest old_cards hand_infos
      else if num_unknown_cards popped = 0
      then branch_loop recurse popped rest old_cards hand_infos
      else
        let hand_info = addKnownCard popped crd in
        if \<exists>c \<in> set old_cards. c \<in> known_cards hand_info
        then branch_loop recurse popped rest old_cards hand_infos
        else
          let hand_info = removePossibleCards hand_info old_cards in
          branch_loop recurse popped rest (old_cards @ [crd])
            (hand_infos @ recurse hand_info))"

lemma constraint_list_removePossibleCards [simp]:
  "constraint_list (removePossibleCards h cs) = constraint_list h"
  unfolding removePossibleCards_def
  by (induction cs arbitrary: h) (simp_all add: removePossibleCard_def)

lemma constraint_list_addKnownCard [simp]:
  "constraint_list (addKnownCard h c) = constraint_list h"
  by (simp add: addKnownCard_def removePossibleCard_def)

lemma branch_loop_cong [fundef_cong]:
  assumes "popped = popped'" "cards = cards'" "old_cards = old_cards'" "hand_infos = hand_infos'"
    and "\<And>h. constraint_list h = constraint_list popped' \<Longrightarrow> f h = g h"
  shows "branch_loop f popped cards old_cards hand_infos
         = branch_loop g popped' cards' old_cards' hand_infos'"
  unfolding assms(1-4) using assms(5)
  by (induction cards' arbitrary: old_cards' hand_infos') (simp_all add: Let_def)

function satisfyConstraints :: "'a HandInformation \<Rightarrow> 'a HandInformation list" where
  "satisfyConstraints self =
     (if length (constraint_list self) = 0 then [self]
      else
        let constraint = last (constraint_list self) in
        if \<exists>crd \<in> set constraint. crd \<in> known_cards self
        then satisfyConstraints (self\<lparr>constraint_list := butlast (constraint_list self)\<rparr>)
        else branch_loop satisfyConstraints
               (self\<lparr>constraint_list := butlast (constraint_list self)\<rparr>) constraint [] [])"
  by pat_completeness auto
termination
  by (relation "measure (\<lambda>self. length (constraint_list self))") auto

declare satisfyConstraints.simps [simp del]

section \<open>Resolving the constraints of all players\<close>




section \<open>Counting the states of every possible hand of one player\<close>





section \<open>The cache file\<close>

datatype file_content = Pickled cache | Unpicklable

record GameStateCounter =
  cache_path :: string
  cache :: cache
  cache_size_on_last_load :: nat
  logged :: "string list"

text \<open>
  The file system maps a path to the content of the file there. \<^verbatim>\<open>open(path, 'rb')\<close>
  raises \<^verbatim>\<open>FileNotFoundError\<close> when there is no file; \<^verbatim>\<open>pickle.load\<close> raises
  \<^verbatim>\<open>UnpicklingError\<close> on bytes that are not a pickle. \<^verbatim>\<open>loadCache\<close> catches the first
  of the two only.
\<close>

definition loadCache ::
  "(string \<rightharpoonup> file_content) \<Rightarrow> GameStateCounter \<Rightarrow> py_error + GameStateCounter" where
  "loadCache files self =
     (let self = self\<lparr>cache := Map.empty, cache_size_on_last_load := 0\<rparr> in
      case files (cache_path self) of
        None \<Rightarrow> Inr (self\<lparr>logged := logged self @ [''Could not find cache'']\<rparr>)
      | Some Unpicklable \<Rightarrow> Inl UnpicklingError
      | Some (Pickled c) \<Rightarrow> Inr (self\<lparr>cache := c, cache_size_on_last_load := card (dom c)\<rparr>))"

definition saveCache ::
  "(string \<rightharpoonup> file_content) \<Rightarrow> GameStateCounter \<Rightarrow> bool
     \<Rightarrow> (string \<rightharpoonup> file_content) \<times> GameStateCounter" where
  "saveCache files self only_if_changed =
     (let self =
        (if only_if_changed \<and> card (dom (cache self)) = cache_size_on_last_load self
         then self\<lparr>logged := logged self @ [''Cache did not change since last load. Not saving it'']\<rparr>
         else self)
      in (files(cache_path self \<mapsto> Pickled (cache self)), self))"

section \<open>MaximumLikelihoodCluePlayer\<close>

definition PEOPLE :: "string list" where
  "PEOPLE = [''Colonel Mustard'', ''Miss Scarlet'', ''Professor Plum'',
             ''Mr. Green'', ''Mrs. White'', ''Mrs. Peacock'']"

definition WEAPONS :: "string list" where
  "WEAPONS = [''Rope'', ''Lead Pipe'', ''Knife'', ''Wrench'', ''Candlestick'', ''Revolver'']"

definition ROOMS :: "string list" where
  "ROOMS = [''Kitchen'', ''Study'', ''Conservatory'', ''Hall'', ''Dining Room'',
            ''Billiard Room'', ''Lounge'', ''Library'', ''Ballroom'']"

record MaximumLikelihoodCluePlayer =
  cards :: "string list"
  player_num :: nat
  num_players :: nat
  accusation :: "string list option"
  hand_infos :: "string HandInformation list"
  envelope_info :: "string HandInformation"
  envelope_counts :: "(string HandInformation \<times> int) list"



text \<open>\<^verbatim>\<open>[x for x in guess.known_cards if x in CATEGORY][0]\<close>\<close>

definition card_of_category :: "string HandInformation \<Rightarrow> string list \<Rightarrow> py_error + string" where
  "card_of_category guess category =
     (case filter (\<lambda>x. x \<in> set category) (iter (known_cards guess)) of
        [] \<Rightarrow> Inl IndexError
      | x # rest \<Rightarrow> Inr x)"

definition cards_of_hand :: "string HandInformation \<Rightarrow> py_error + string list" where
  "cards_of_hand guess =
     (case card_of_category guess PEOPLE of
        Inl e \<Rightarrow> Inl e
      | Inr person \<Rightarrow>
          (case card_of_category guess WEAPONS of
             Inl e \<Rightarrow> Inl e
           | Inr weapon \<Rightarrow>
               (case card_of_category guess ROOMS of
                  Inl e \<Rightarrow> Inl e
                | Inr room \<Rightarrow> Inr [person, weapon, room])))"


text \<open>
  The loop of \<^verbatim>\<open>readyForAccusation\<close> with its \<^verbatim>\<open>break\<close>; the state is
  \<^verbatim>\<open>num_nonzero_probs\<close> and \<^verbatim>\<open>best_hand\<close>.
\<close>

fun nonzero_loop :: "('x \<times> int) list \<Rightarrow> nat \<Rightarrow> 'x option \<Rightarrow> nat \<times> 'x option" where
  "nonzero_loop [] num_nonzero_probs best_hand = (num_nonzero_probs, best_hand)"
| "nonzero_loop ((hand, count') # rest) num_nonzero_probs best_hand =
     (let (n, b) = (if count' > 0 then (num_nonzero_probs + 1, Some hand)
                    else (num_nonzero_probs, best_hand))
      in if n > 1 then (n, b) else nonzero_loop rest n b)"

definition readyForAccusation ::
  "MaximumLikelihoodCluePlayer \<Rightarrow> py_error + MaximumLikelihoodCluePlayer" where
  "readyForAccusation self =
     (case nonzero_loop (envelope_counts self) 0 None of
        (num_nonzero_probs, best_hand) \<Rightarrow>
          if num_nonzero_probs = 1 then
            (case best_hand of
               None \<Rightarrow> Inl AttributeError
             | Some guess \<Rightarrow>
                 (case cards_of_hand guess of
                    Inl e \<Rightarrow> Inl e
                  | Inr g \<Rightarrow> Inr (self\<lparr>accusation := Some g\<rparr>)))
          else Inr self)"

text \<open>The entries of a dictionary of counts whose count is greater than zero.\<close>

definition positive_entries :: "('x \<times> int) list \<Rightarrow> ('x \<times> int) list" where
  "positive_entries d = filter (\<lambda>(hand, count'). count' > 0) d"

text \<open>A cache none of whose counts is negative; the empty cache is one.\<close>

definition cache_nonneg :: "cache \<Rightarrow> bool" where
  "cache_nonneg c = (\<forall>k v. c k = Some v \<longrightarrow> 0 \<le> v)"



text \<open>
  The full-hand completions of a hand: the hands that \<^verbatim>\<open>getPossibleHands\<close> builds, as a
  set. A completion adds as many possible cards as the hand has unknown cards and meets
  every constraint of the hand.
\<close>

definition completions :: "'a HandInformation \<Rightarrow> 'a HandInformation set" where
  "completions h =
     {\<lparr>hand_size = hand_size h, known_cards = known_cards h \<union> S, possible_cards = {},
       constraint_list = []\<rparr> | S.
      S \<subseteq> possible_cards h \<and> int (card S) = num_unknown_cards h
      \<and> meets_constraints (known_cards h \<union> S) (constraint_list h)}"

text \<open>No two sets of the list, at different positions, share an element.\<close>

fun pairwise_disjoint :: "'b set list \<Rightarrow> bool" where
  "pairwise_disjoint [] = True"
| "pairwise_disjoint (A # As) = (A \<inter> \<Union>(set As) = {} \<and> pairwise_disjoint As)"

text \<open>
  The hands on which the loop of \<^verbatim>\<open>satisfyConstraints\<close> makes its recursive calls, in
  order; used in the proofs only.
\<close>

fun branches :: "'a HandInformation \<Rightarrow> 'a list \<Rightarrow> 'a list \<Rightarrow> 'a HandInformation list" where
  "branches popped [] old_cards = []"
| "branches popped (crd # rest) old_cards =
     (if crd \<notin> known_cards popped \<and> crd \<notin> possible_cards popped
      then branches popped rest old_cards
      else if num_unknown_cards popped = 0
      then branches popped rest old_cards
      else if \<exists>c \<in> set old_cards. c \<in> known_cards (addKnownCard popped crd)
      then branches popped rest old_cards
      else removePossibleCards (addKnownCard popped crd) old_cards
           # branches popped rest (old_cards @ [crd]))"

text \<open>
  A hand whose sets are finite, as Python sets are, and which does not know more cards
  than its \<open>hand_size\<close>.
\<close>

definition good :: "'a HandInformation \<Rightarrow> bool" where
  "good h \<longleftrightarrow> finite (known_cards h) \<and> finite (possible_cards h) \<and> 0 \<le> num_unknown_cards h"

text \<open>
  What \<^verbatim>\<open>countPossibleStates\<close> is to count, stated without the cache and without a choice
  of the hand to iterate over. A hand without constraints is reduced to its number of
  unknown cards and its set of possible cards. \<open>cnt\<close> is the number of ways to give every
  hand of the list as many of its possible cards as it has unknown cards, no card going
  to two hands: the first hand takes a set \<open>S\<close>, and the others are filled from what is
  left.
\<close>

definition subsets_of :: "'a set \<Rightarrow> nat \<Rightarrow> 'a set set" where
  "subsets_of P u = {S. S \<subseteq> P \<and> card S = u}"

definition without :: "'a set \<Rightarrow> nat \<times> 'a set \<Rightarrow> nat \<times> 'a set" where
  "without S p = (fst p, snd p - S)"

function cnt :: "(nat \<times> 'a set) list \<Rightarrow> nat" where
  "cnt [] = 1"
| "cnt (p # rest) = (\<Sum>S \<in> subsets_of (snd p) (fst p). cnt (map (without S) rest))"
  by pat_completeness auto
termination
  by (relation "measure length") auto

text \<open>The same hand with its cards renamed by \<open>f\<close>.\<close>

definition relabel :: "('a \<Rightarrow> 'b) \<Rightarrow> nat \<times> 'a set \<Rightarrow> nat \<times> 'b set" where
  "relabel f p = (fst p, f ` snd p)"

text \<open>
  A hand without constraints as \<open>cnt\<close> sees it: its number of unknown cards and its set of
  possible cards.
\<close>

definition hand_pair :: "'a HandInformation \<Rightarrow> nat \<times> 'a set" where
  "hand_pair h = (nat (num_unknown_cards h), possible_cards h)"

text \<open>
  For a card, the tuple of terms of \<^verbatim>\<open>getCacheKey\<close> whose region holds the card: 1 for the
  hands that have the card among their possible cards, 0 for the others.
\<close>

definition pattern :: "'a HandInformation list \<Rightarrow> 'a \<Rightarrow> nat list" where
  "pattern hs x = map (\<lambda>h. if x \<in> possible_cards h then 1 else 0) hs"

text \<open>
  The lists of hands that \<^verbatim>\<open>countPossibleStates\<close> counts without raising: no hand has a
  constraint or knows more cards than its size, and the sets of possible cards are finite.
\<close>

definition plain_hands :: "'a HandInformation list \<Rightarrow> bool" where
  "plain_hands hs \<longleftrightarrow>
     (\<forall>h \<in> set hs. finite (possible_cards h) \<and> 0 \<le> num_unknown_cards h \<and> constraint_list h = [])"

text \<open>
  A cache whose entries are right: the count stored under the key of a list of hands is
  the number of ways to complete the hands of the list.
\<close>

definition cache_sound :: "'a::linorder itself \<Rightarrow> cache \<Rightarrow> bool" where
  "cache_sound T c \<longleftrightarrow>
     (\<forall>(hs :: 'a HandInformation list) v.
        plain_hands hs \<longrightarrow> c (getCacheKey hs) = Some v \<longrightarrow> v = int (cnt (map hand_pair hs)))"

section \<open>Properties of the hand operations\<close>

text \<open>
  Claim C10, as stated, says that after \<^verbatim>\<open>addKnownCard\<close> on a hand whose number of known
  cards equals \<open>hand_size\<close> the number of unknown cards is negative. This fails when the
  card added is already a known card: the set of known cards does not grow and the number
  of unknown cards stays 0.
\<close>

theorem addKnownCard_known_card_counterexample:
  "int (card (known_cards \<lparr>hand_size = 1, known_cards = {1::int}, possible_cards = {},
                          constraint_list = []\<rparr>)) = 1
   \<and> \<not> num_unknown_cards (addKnownCard \<lparr>hand_size = 1, known_cards = {1::int},
                                         possible_cards = {}, constraint_list = []\<rparr> 1) < 0"
  by (simp add: num_unknown_cards_def addKnownCard_def removePossibleCard_def)

text \<open>
  Claim C10, amended: \<^verbatim>\<open>addKnownCard\<close> is total and unconditional. For every hand and
  every card the known cards become the old known cards with the card added, the possible
  cards become the old possible cards without the card, and nothing else changes. When the
  card is not yet known and the number of known cards equals \<open>hand_size\<close>, the number of
  unknown cards is \<open>-1\<close> afterwards: nothing keeps the number of known cards below
  \<open>hand_size\<close>.
\<close>

theorem addKnownCard_total:
  "known_cards (addKnownCard h c) = insert c (known_cards h)
   \<and> possible_cards (addKnownCard h c) = possible_cards h - {c}
   \<and> hand_size (addKnownCard h c) = hand_size h
   \<and> constraint_list (addKnownCard h c) = constraint_list h
   \<and> (finite (known_cards h) \<longrightarrow> c \<notin> known_cards h \<longrightarrow> int (card (known_cards h)) = hand_size h
        \<longrightarrow> num_unknown_cards (addKnownCard h c) = - 1)"
  by (simp add: num_unknown_cards_def addKnownCard_def removePossibleCard_def)

theorem addKnownCard_total_witness:
  "known_cards (addKnownCard \<lparr>hand_size = 1, known_cards = {1::int}, possible_cards = {2, 3},
                             constraint_list = []\<rparr> 2) = {1, 2}
   \<and> possible_cards (addKnownCard \<lparr>hand_size = 1, known_cards = {1::int}, possible_cards = {2, 3},
                             constraint_list = []\<rparr> 2) = {3}
   \<and> num_unknown_cards (addKnownCard \<lparr>hand_size = 1, known_cards = {1::int},
                             possible_cards = {2, 3}, constraint_list = []\<rparr> 2) = - 1"
  using addKnownCard_total [of "\<lparr>hand_size = 1, known_cards = {1::int}, possible_cards = {2, 3},
                             constraint_list = []\<rparr>" 2]
  by auto

section \<open>Properties of the counter\<close>

text \<open>
  Claim C3: for two hands without constraints, both of \<open>hand_size\<close> 3 with no known card,
  with possible cards \<open>{1,...,6}\<close> and \<open>{3,...,8}\<close>, \<^verbatim>\<open>countPossibleStates\<close> started on
  the empty cache returns 92.
\<close>

theorem overlap_count_92:
  "\<exists>cache'. countPossibleStates Map.empty
      [\<lparr>hand_size = 3, known_cards = {}, possible_cards = {1, 2, 3, 4, 5, 6::int},
        constraint_list = []\<rparr>,
       \<lparr>hand_size = 3, known_cards = {}, possible_cards = {3, 4, 5, 6, 7, 8},
        constraint_list = []\<rparr>] = Inr (92, cache')"
proof -
  have "map_sum id fst (countPossibleStates Map.empty
      [\<lparr>hand_size = 3, known_cards = {}, possible_cards = {1, 2, 3, 4, 5, 6::int},
        constraint_list = []\<rparr>,
       \<lparr>hand_size = 3, known_cards = {}, possible_cards = {3, 4, 5, 6, 7, 8},
        constraint_list = []\<rparr>]) = Inr 92"
    by code_simp
  then show ?thesis
    by (cases "countPossibleStates Map.empty
      [\<lparr>hand_size = 3, known_cards = {}, possible_cards = {1, 2, 3, 4, 5, 6::int},
        constraint_list = []\<rparr>,
       \<lparr>hand_size = 3, known_cards = {}, possible_cards = {3, 4, 5, 6, 7, 8},
        constraint_list = []\<rparr>]") auto
qed

text \<open>
  Claim C5 says that \<^verbatim>\<open>getCacheKey\<close> gives the same key for every order of the hands.
  The sort of \<^verbatim>\<open>getCacheKey\<close> compares the numbers of possible hands only and is stable,
  so two hands with the same number of possible hands stay in the order they were given
  in. A hand with 1 unknown card out of 3 possible ones and a hand with 2 unknown cards
  out of 3 possible ones both have 3 possible hands, and the two orders of the pair give
  different keys.
\<close>

theorem getCacheKey_order_dependent:
  "getCacheKey
     [\<lparr>hand_size = 1, known_cards = {}, possible_cards = {1, 2, 3::int}, constraint_list = []\<rparr>,
      \<lparr>hand_size = 2, known_cards = {}, possible_cards = {4, 5, 6}, constraint_list = []\<rparr>]
     = [1, 2, 0, 3, 3, 0]
   \<and> getCacheKey
     [\<lparr>hand_size = 2, known_cards = {}, possible_cards = {4, 5, 6::int}, constraint_list = []\<rparr>,
      \<lparr>hand_size = 1, known_cards = {}, possible_cards = {1, 2, 3}, constraint_list = []\<rparr>]
     = [2, 1, 0, 3, 3, 0]"
  by code_simp

text \<open>
  Claim C6, as stated, says that \<^verbatim>\<open>loadCache\<close> never propagates an exception, also when
  the cache file is present but is not a well-formed pickle. \<^verbatim>\<open>loadCache\<close> catches
  \<^verbatim>\<open>FileNotFoundError\<close> only, so the error of \<^verbatim>\<open>pickle.load\<close> propagates.
\<close>

theorem loadCache_unpicklable_counterexample:
  "loadCache [''cache.pickle'' \<mapsto> Unpicklable]
     \<lparr>cache_path = ''cache.pickle'', cache = Map.empty, cache_size_on_last_load = 0, logged = []\<rparr>
   = Inl UnpicklingError"
  by (simp add: loadCache_def)

text \<open>
  Claim C6, amended: when there is no file at \<open>cache_path\<close>, \<^verbatim>\<open>loadCache\<close> completes
  without an exception and leaves the counter with an empty cache (and a recorded size
  of 0).
\<close>

theorem loadCache_missing_file:
  "files (cache_path self) = None \<Longrightarrow>
     \<exists>self'. loadCache files self = Inr self' \<and> cache self' = Map.empty
        \<and> cache_size_on_last_load self' = 0 \<and> cache_path self' = cache_path self"
  by (simp add: loadCache_def)

theorem loadCache_missing_file_witness:
  "\<exists>self'. loadCache Map.empty
      \<lparr>cache_path = ''cache.pickle'', cache = [[0] \<mapsto> 1], cache_size_on_last_load = 1, logged = []\<rparr>
      = Inr self' \<and> cache self' = Map.empty"
  using loadCache_missing_file [of Map.empty
      "\<lparr>cache_path = ''cache.pickle'', cache = [[0] \<mapsto> 1], cache_size_on_last_load = 1, logged = []\<rparr>"]
  by auto

text \<open>
  Claim C9: \<^verbatim>\<open>saveCache\<close> with \<^verbatim>\<open>only_if_changed=True\<close> writes the cache to the file at
  \<open>cache_path\<close> also when the cache has as many entries as at the last load. In that
  case the only other effect is the debug message; the write is not skipped.
\<close>

theorem saveCache_writes_unchanged_cache:
  "card (dom (cache self)) = cache_size_on_last_load self \<Longrightarrow>
     saveCache files self True =
       (files(cache_path self \<mapsto> Pickled (cache self)),
        self\<lparr>logged := logged self @ [''Cache did not change since last load. Not saving it'']\<rparr>)"
  by (simp add: saveCache_def)

theorem saveCache_writes_unchanged_cache_witness:
  "fst (saveCache Map.empty
      \<lparr>cache_path = ''cache.pickle'', cache = Map.empty, cache_size_on_last_load = 0, logged = []\<rparr>
      True) ''cache.pickle'' = Some (Pickled Map.empty)"
  using saveCache_writes_unchanged_cache [of
      "\<lparr>cache_path = ''cache.pickle'', cache = Map.empty, cache_size_on_last_load = 0, logged = []\<rparr>"
      Map.empty]
  by simp

lemma categories_disjoint:
  "set PEOPLE \<inter> set WEAPONS = {}" "set PEOPLE \<inter> set ROOMS = {}" "set WEAPONS \<inter> set ROOMS = {}"
  by (simp_all add: PEOPLE_def WEAPONS_def ROOMS_def)

lemma filter_iter_single:
  assumes "finite S" "S \<inter> set category = {p}"
  shows "filter (\<lambda>x. x \<in> set category) (iter S) = [p]"
proof -
  let ?xs = "filter (\<lambda>x. x \<in> set category) (iter S)"
  have d: "distinct ?xs" by (simp add: iter_def)
  have s: "set ?xs = {p}" using assms by (auto simp: iter_def)
  from d s have "length ?xs = 1"
    by (metis card_1_singleton_iff distinct_card  is_singletonI is_singleton_altdef)
  with s show ?thesis by (cases ?xs) auto
qed

lemma cards_of_envelope_hand:
  assumes "known_cards hand = {p, w, r}" "p \<in> set PEOPLE" "w \<in> set WEAPONS" "r \<in> set ROOMS"
  shows "cards_of_hand hand = Inr [p, w, r]"
proof -
  have "{p, w, r} \<inter> set PEOPLE = {p}" "{p, w, r} \<inter> set WEAPONS = {w}" "{p, w, r} \<inter> set ROOMS = {r}"
    using assms(2-4) categories_disjoint by auto
  then show ?thesis
    using assms(1) by (simp add: cards_of_hand_def card_of_category_def filter_iter_single)
qed

lemma nonzero_loop_result:
  "n \<le> 1 \<Longrightarrow> nonzero_loop d n b = (k, b') \<Longrightarrow>
     (k = 1 \<longleftrightarrow> n + length (positive_entries d) = 1)
     \<and> (k = 1 \<longrightarrow> b' = (case positive_entries d of [] \<Rightarrow> b | e # es \<Rightarrow> Some (fst e)))"
proof (induction d arbitrary: n b)
  case Nil
  then show ?case by (simp add: positive_entries_def)
next
  case (Cons e d)
  obtain hand count' where e: "e = (hand, count')" by (cases e)
  show ?case
  proof (cases "count' > 0")
    case True
    show ?thesis
    proof (cases "n = 0")
      case True
      with \<open>count' > 0\<close> Cons.prems e have "nonzero_loop d 1 (Some hand) = (k, b')" by simp
      from Cons.IH[OF _ this] \<open>count' > 0\<close> e True show ?thesis
        by (auto simp: positive_entries_def split: list.splits)
    next
      case False
      with Cons.prems have "n = 1" by simp
      with \<open>count' > 0\<close> Cons.prems e show ?thesis by (simp add: positive_entries_def)
    qed
  next
    case False
    with Cons.prems e have "nonzero_loop d n b = (k, b')" by (simp split: if_splits)
    from Cons.IH[OF Cons.prems(1) this] False e show ?thesis
      by (simp add: positive_entries_def)
  qed
qed

section \<open>Properties of the player\<close>

text \<open>
  Claim C8: \<^verbatim>\<open>readyForAccusation\<close> sets an accusation if and only if exactly one candidate
  envelope hand of \<^verbatim>\<open>envelope_counts\<close> has a count greater than zero. When no or several
  candidates have a positive count the player is left as it was. When exactly one has,
  and it is an envelope hand (a person, a weapon and a room), the accusation becomes
  the person, the weapon and the room of that candidate.
\<close>

theorem readyForAccusation_unique_candidate:
  "(length (positive_entries (envelope_counts self)) \<noteq> 1 \<longrightarrow> readyForAccusation self = Inr self)
   \<and> (\<forall>hand count' p w r.
        positive_entries (envelope_counts self) = [(hand, count')]
        \<and> known_cards hand = {p, w, r} \<and> p \<in> set PEOPLE \<and> w \<in> set WEAPONS \<and> r \<in> set ROOMS
        \<longrightarrow> readyForAccusation self = Inr (self\<lparr>accusation := Some [p, w, r]\<rparr>))"
proof -
  obtain k b where kb: "nonzero_loop (envelope_counts self) 0 None = (k, b)"
    by (cases "nonzero_loop (envelope_counts self) 0 None")
  from nonzero_loop_result[OF _ kb]
  have k: "k = 1 \<longleftrightarrow> length (positive_entries (envelope_counts self)) = 1"
    and b: "k = 1 \<Longrightarrow> b = (case positive_entries (envelope_counts self) of [] \<Rightarrow> None | e # es \<Rightarrow> Some (fst e))"
    by simp_all
  have 1: "length (positive_entries (envelope_counts self)) \<noteq> 1 \<longrightarrow> readyForAccusation self = Inr self"
    using k kb by (simp add: readyForAccusation_def)
  have 2: "readyForAccusation self = Inr (self\<lparr>accusation := Some [p, w, r]\<rparr>)"
    if "positive_entries (envelope_counts self) = [(hand, count')]"
       "known_cards hand = {p, w, r}" "p \<in> set PEOPLE" "w \<in> set WEAPONS" "r \<in> set ROOMS"
    for hand count' p w r
  proof -
    from that(1) k have "k = 1" by simp
    with b that(1) have "b = Some hand" by simp
    with \<open>k = 1\<close> kb cards_of_envelope_hand[OF that(2-5)] show ?thesis
      by (simp add: readyForAccusation_def)
  qed
  from 1 2 show ?thesis by blast
qed

theorem readyForAccusation_unique_candidate_witness:
  "positive_entries
     [(\<lparr>hand_size = 3, known_cards = {''Miss Scarlet'', ''Knife'', ''Hall''}, possible_cards = {},
        constraint_list = []\<rparr>, 0::int),
      (\<lparr>hand_size = 3, known_cards = {''Miss Scarlet'', ''Rope'', ''Hall''}, possible_cards = {},
        constraint_list = []\<rparr>, 2)]
   = [(\<lparr>hand_size = 3, known_cards = {''Miss Scarlet'', ''Rope'', ''Hall''}, possible_cards = {},
        constraint_list = []\<rparr>, 2)]
   \<and> readyForAccusation
     \<lparr>cards = [], player_num = 0, num_players = 6, accusation = None, hand_infos = [],
      envelope_info = \<lparr>hand_size = 3, known_cards = {}, possible_cards = {}, constraint_list = []\<rparr>,
      envelope_counts =
        [(\<lparr>hand_size = 3, known_cards = {''Miss Scarlet'', ''Knife'', ''Hall''}, possible_cards = {},
           constraint_list = []\<rparr>, 0),
         (\<lparr>hand_size = 3, known_cards = {''Miss Scarlet'', ''Rope'', ''Hall''}, possible_cards = {},
           constraint_list = []\<rparr>, 2)]\<rparr>
   = Inr \<lparr>cards = [], player_num = 0, num_players = 6,
          accusation = Some [''Miss Scarlet'', ''Rope'', ''Hall''], hand_infos = [],
      envelope_info = \<lparr>hand_size = 3, known_cards = {}, possible_cards = {}, constraint_list = []\<rparr>,
      envelope_counts =
        [(\<lparr>hand_size = 3, known_cards = {''Miss Scarlet'', ''Knife'', ''Hall''}, possible_cards = {},
           constraint_list = []\<rparr>, 0),
         (\<lparr>hand_size = 3, known_cards = {''Miss Scarlet'', ''Rope'', ''Hall''}, possible_cards = {},
           constraint_list = []\<rparr>, 2)]\<rparr>"
proof -
  let ?e = "[(\<lparr>hand_size = 3, known_cards = {''Miss Scarlet'', ''Knife'', ''Hall''}, possible_cards = {},
        constraint_list = []\<rparr>, 0::int),
      (\<lparr>hand_size = 3, known_cards = {''Miss Scarlet'', ''Rope'', ''Hall''}, possible_cards = {},
        constraint_list = []\<rparr>, 2)]"
  let ?self = "\<lparr>cards = [], player_num = 0, num_players = 6, accusation = None, hand_infos = [],
      envelope_info = \<lparr>hand_size = 3, known_cards = {}, possible_cards = {}, constraint_list = []\<rparr>,
      envelope_counts = ?e\<rparr>"
  have p: "positive_entries ?e = [(\<lparr>hand_size = 3, known_cards = {''Miss Scarlet'', ''Rope'', ''Hall''}, possible_cards = {},
        constraint_list = []\<rparr>, 2)]"
    by (simp add: positive_entries_def)
  have m: "''Miss Scarlet'' \<in> set PEOPLE" "''Rope'' \<in> set WEAPONS" "''Hall'' \<in> set ROOMS"
    by (simp_all add: PEOPLE_def WEAPONS_def ROOMS_def)
  from readyForAccusation_unique_candidate[of ?self] p m
  have "readyForAccusation ?self = Inr (?self\<lparr>accusation := Some [''Miss Scarlet'', ''Rope'', ''Hall'']\<rparr>)"
    by simp
  with p show ?thesis by simp
qed

lemma comb_nonneg: "0 \<le> comb N k"
  by (simp add: comb_def)

lemma select_hand_total:
  assumes "\<forall>h \<in> set hs. constraint_list h = []"
  shows "\<exists>idx num. select_hand (enumerate n hs) (i, m) = Inr (idx, num)
           \<and> (idx = i \<and> m \<noteq> None \<or> idx = i \<and> hs = [] \<or> n \<le> idx \<and> idx < n + length hs)"
  using assms
proof (induction hs arbitrary: n i m)
  case Nil
  then show ?case by simp
next
  case (Cons h hs)
  from Cons.prems have cf: "constraint_list h = []" and rest: "\<forall>h \<in> set hs. constraint_list h = []"
    by simp_all
  let ?k = "comb (int (card (possible_cards h))) (num_unknown_cards h)"
  have np: "numPossibleHands h = Inr ?k" using cf by (simp add: numPossibleHands_def)
  show ?case
  proof (cases "case m of None \<Rightarrow> True | Some m' \<Rightarrow> ?k < m'")
    case True
    from Cons.IH[OF rest, of "Suc n" n "Some ?k"]
    obtain idx num where "select_hand (enumerate (Suc n) hs) (n, Some ?k) = Inr (idx, num)"
      and "idx = n \<or> Suc n \<le> idx \<and> idx < Suc n + length hs" by auto
    with True np show ?thesis by auto
  next
    case False
    then have "m \<noteq> None" by (auto split: option.splits)
    from Cons.IH[OF rest, of "Suc n" i m]
    obtain idx num where "select_hand (enumerate (Suc n) hs) (i, m) = Inr (idx, num)"
      and "idx = i \<and> m \<noteq> None \<or> idx = i \<and> hs = [] \<or> Suc n \<le> idx \<and> idx < Suc n + length hs" by auto
    with False np \<open>m \<noteq> None\<close> show ?thesis by auto
  qed
qed

lemma new_args_props:
  assumes "h' \<in> set (new_args hs idx S)"
  shows "constraint_list h' = []"
    and "\<exists>h \<in> set hs. hand_size h' = hand_size h \<and> known_cards h' = known_cards h
            \<and> possible_cards h' = possible_cards h - S"
proof -
  from assms obtain h where "h \<in> set (take idx hs @ drop (Suc idx) hs)"
    and h': "h' = \<lparr>hand_size = hand_size h, known_cards = known_cards h,
                   possible_cards = possible_cards h - S, constraint_list = []\<rparr>"
    unfolding new_args_eq by auto
  then have "h \<in> set hs" by (auto dest: in_set_takeD in_set_dropD)
  with h' show "constraint_list h' = []"
    and "\<exists>h \<in> set hs. hand_size h' = hand_size h \<and> known_cards h' = known_cards h
            \<and> possible_cards h' = possible_cards h - S"
    by auto
qed

lemma sum_loop_total:
  assumes "\<And>c x. x \<in> set xs \<Longrightarrow> I c \<Longrightarrow> \<exists>v c'. f c x = Inr (v, c') \<and> 0 \<le> v \<and> I c'"
    and "I c" "0 \<le> count'"
  shows "\<exists>v c'. sum_loop f xs count' c = Inr (v, c') \<and> 0 \<le> v \<and> I c'"
  using assms
proof (induction xs arbitrary: count' c)
  case Nil
  then show ?case by simp
next
  case (Cons x xs)
  from Cons.prems(1)[of x c] Cons.prems(2)
  obtain v c1 where f: "f c x = Inr (v, c1)" "0 \<le> v" "I c1" by auto
  have "\<exists>v' c'. sum_loop f xs (count' + v) c1 = Inr (v', c') \<and> 0 \<le> v' \<and> I c'"
    using Cons.prems(1,3) f by (intro Cons.IH) auto
  with f show ?case by simp
qed

lemma countPossibleStates_total:
  "hs0 \<noteq> [] \<Longrightarrow> \<forall>h \<in> set hs0. constraint_list h = [] \<Longrightarrow>
   \<forall>h \<in> set hs0. 0 \<le> num_unknown_cards h \<Longrightarrow> cache_nonneg c \<Longrightarrow>
   \<exists>v c'. countPossibleStates c hs0 = Inr (v, c') \<and> 0 \<le> v \<and> cache_nonneg c'"
proof (induction c hs0 rule: countPossibleStates.induct)
  case (1 c hs)
  note cf = "1.prems"(2) and nn = "1.prems"(3) and cn = "1.prems"(4)
  from cf have nc: "\<not> (\<exists>h \<in> set hs. 0 < length (constraint_list h))" by simp
  show ?case
  proof (cases "length hs = 1")
    case True
    then have "hs ! 0 \<in> set hs" by (cases hs) auto
    with cf have "numPossibleHands (hs ! 0) =
        Inr (comb (int (card (possible_cards (hs ! 0)))) (num_unknown_cards (hs ! 0)))"
      by (simp add: numPossibleHands_def)
    with True nc cn show ?thesis
      by (subst countPossibleStates.simps) (simp add: comb_nonneg)
  next
    case False
    moreover from "1.prems"(1) have "length hs \<noteq> 0" by simp
    ultimately have len: "2 \<le> length hs" by arith
    show ?thesis
    proof (cases "c (getCacheKey hs)")
      case (Some v)
      with cn have "0 \<le> v" by (auto simp: cache_nonneg_def)
      with Some False nc cn show ?thesis
        by (subst countPossibleStates.simps) simp
    next
      case None
      from select_hand_total[OF cf, of 0 0 None] "1.prems"(1)
      obtain idx num where sel: "select_hand (enumerate 0 hs) (0, None) = Inr (idx, num)"
        and idx: "idx < length hs" by auto
      from idx nn have u: "0 \<le> num_unknown_cards (hs ! idx)" by simp
      let ?hands = "combinations_nat (iter (possible_cards (hs ! idx))) (nat (num_unknown_cards (hs ! idx)))"
      from u have cmb: "combinations (iter (possible_cards (hs ! idx))) (num_unknown_cards (hs ! idx))
          = Inr ?hands"
        by (simp add: combinations_def)
      have step: "\<exists>v c'. countPossibleStates c0 (new_args hs idx (set hand)) = Inr (v, c')
            \<and> 0 \<le> v \<and> cache_nonneg c'"
        if "hand \<in> set ?hands" "cache_nonneg c0" for c0 hand
      proof (rule "1.IH"[OF nc False refl None sel refl _ cmb that(1)])
        show "\<not> length hs \<le> idx" using idx by simp
        show "new_args hs idx (set hand) \<noteq> []"
          using length_new_args[OF idx, of "set hand"] len by auto
        show "\<forall>h \<in> set (new_args hs idx (set hand)). constraint_list h = []"
          using new_args_props(1) by blast
        show "\<forall>h \<in> set (new_args hs idx (set hand)). 0 \<le> num_unknown_cards h"
          using new_args_props(2)[of _ hs idx "set hand"] nn
          by (fastforce simp: num_unknown_cards_def)
        show "cache_nonneg c0" by fact
      qed
      from sum_loop_total[of ?hands cache_nonneg
            "\<lambda>cache' hand. countPossibleStates cache' (new_args hs idx (set hand))" c 0, OF step cn]
      obtain v c' where sl: "sum_loop (\<lambda>cache' hand. countPossibleStates cache' (new_args hs idx (set hand)))
            ?hands 0 c = Inr (v, c')" and v: "0 \<le> v" and c': "cache_nonneg c'"
        by auto
      from c' v have "cache_nonneg (c'(getCacheKey hs \<mapsto> v))"
        by (auto simp: cache_nonneg_def)
      with None False nc sel idx cmb sl v show ?thesis
        by (subst countPossibleStates.simps) simp
    qed
  qed
qed

lemma countPossibleStates_constraints:
  "\<exists>h \<in> set hs0. constraint_list h \<noteq> [] \<Longrightarrow> countPossibleStates c hs0 = Inl ValueError"
  by (subst countPossibleStates.simps) auto

text \<open>
  Claim C4, as stated, says that \<^verbatim>\<open>countPossibleStates\<close> raises only when a hand of the
  list has a constraint. A hand may know more cards than its \<open>hand_size\<close>; when the loop
  picks such a hand, \<^verbatim>\<open>itertools.combinations\<close> is called with a negative length and
  raises \<^verbatim>\<open>ValueError\<close>, although no hand of the list has a constraint.
\<close>

theorem countPossibleStates_negative_unknown_counterexample:
  "countPossibleStates Map.empty
     [\<lparr>hand_size = 0, known_cards = {1::int}, possible_cards = {}, constraint_list = []\<rparr>,
      \<lparr>hand_size = 1, known_cards = {}, possible_cards = {2}, constraint_list = []\<rparr>]
   = Inl ValueError"
proof -
  have "map_sum id fst (countPossibleStates Map.empty
     [\<lparr>hand_size = 0, known_cards = {1::int}, possible_cards = {}, constraint_list = []\<rparr>,
      \<lparr>hand_size = 1, known_cards = {}, possible_cards = {2}, constraint_list = []\<rparr>])
    = Inl ValueError"
    by code_simp
  then show ?thesis
    by (cases "countPossibleStates Map.empty
     [\<lparr>hand_size = 0, known_cards = {1::int}, possible_cards = {}, constraint_list = []\<rparr>,
      \<lparr>hand_size = 1, known_cards = {}, possible_cards = {2}, constraint_list = []\<rparr>]") auto
qed

text \<open>
  Claim C4, amended: for a non-empty list of hands none of which knows more cards than
  its \<open>hand_size\<close>, and a cache without negative counts, \<^verbatim>\<open>countPossibleStates\<close> raises
  if and only if some hand has a non-empty \<open>constraint_list\<close>; when no hand has one it
  returns a count that is not negative.
\<close>

theorem countPossibleStates_raises_iff_constraints:
  assumes "hs0 \<noteq> []"
    and "\<forall>h \<in> set hs0. int (card (known_cards h)) \<le> hand_size h"
    and "cache_nonneg c"
  shows "(isl (countPossibleStates c hs0) \<longleftrightarrow> (\<exists>h \<in> set hs0. constraint_list h \<noteq> []))
    \<and> ((\<forall>h \<in> set hs0. constraint_list h = []) \<longrightarrow>
         (\<exists>count' c'. countPossibleStates c hs0 = Inr (count', c') \<and> 0 \<le> count'))"
proof (cases "\<exists>h \<in> set hs0. constraint_list h \<noteq> []")
  case True
  with countPossibleStates_constraints[OF True, of c] show ?thesis by auto
next
  case False
  then have cf: "\<forall>h \<in> set hs0. constraint_list h = []" by simp
  from assms(2) have "\<forall>h \<in> set hs0. 0 \<le> num_unknown_cards h"
    by (simp add: num_unknown_cards_def)
  from countPossibleStates_total[OF assms(1) cf this assms(3)] False show ?thesis by auto
qed

theorem countPossibleStates_raises_iff_constraints_witness:
  "\<exists>count' c'. countPossibleStates Map.empty
     [\<lparr>hand_size = 1, known_cards = {}, possible_cards = {1, 2::int}, constraint_list = []\<rparr>,
      \<lparr>hand_size = 1, known_cards = {}, possible_cards = {2, 3}, constraint_list = []\<rparr>]
     = Inr (count', c') \<and> 0 \<le> count'"
  using countPossibleStates_raises_iff_constraints [of
     "[\<lparr>hand_size = 1, known_cards = {}, possible_cards = {1, 2::int}, constraint_list = []\<rparr>,
      \<lparr>hand_size = 1, known_cards = {}, possible_cards = {2, 3}, constraint_list = []\<rparr>]"
     Map.empty]
  by (simp add: cache_nonneg_def)

section \<open>Facts about the library functions\<close>

lemma combinations_nat_elem:
  "cs \<in> set (combinations_nat xs k) \<Longrightarrow> length cs = k \<and> set cs \<subseteq> set xs \<and> (distinct xs \<longrightarrow> distinct cs)"
proof (induction xs k arbitrary: cs rule: combinations_nat.induct)
  case (1 xs)
  then show ?case by simp
next
  case (2 r)
  then show ?case by simp
next
  case (3 x xs r)
  from "3.prems" consider cs' where "cs = x # cs'" "cs' \<in> set (combinations_nat xs r)"
    | "cs \<in> set (combinations_nat xs (Suc r))" by auto
  then show ?case
  proof cases
    case 1
    with "3.IH"(1)[OF 1(2)] show ?thesis by auto
  next
    case 2
    with "3.IH"(2)[OF 2] show ?thesis by auto
  qed
qed

lemma set_combinations_nat:
  "distinct xs \<Longrightarrow> set ` set (combinations_nat xs k) = {S. S \<subseteq> set xs \<and> card S = k}"
proof (induction xs k rule: combinations_nat.induct)
  case (1 xs)
  have "{S. S \<subseteq> set xs \<and> card S = 0} = {{}}"
    by (auto simp: card_eq_0_iff intro: finite_subset[OF _ finite_set])
  then show ?case by simp
next
  case (2 r)
  then show ?case by auto
next
  case (3 x xs r)
  from "3.prems" have d: "distinct xs" and x: "x \<notin> set xs" by simp_all
  have a: "set ` set (map ((#) x) (combinations_nat xs r)) = insert x ` {S. S \<subseteq> set xs \<and> card S = r}"
    using "3.IH"(1)[OF d] by (simp add: image_image) (metis (no_types, lifting) image_cong image_image)
  have b: "set ` set (combinations_nat xs (Suc r)) = {S. S \<subseteq> set xs \<and> card S = Suc r}"
    using "3.IH"(2)[OF d] .
  have "{S. S \<subseteq> insert x (set xs) \<and> card S = Suc r}
        = insert x ` {S. S \<subseteq> set xs \<and> card S = r} \<union> {S. S \<subseteq> set xs \<and> card S = Suc r}"
    (is "?L = ?A \<union> ?B")
  proof (intro equalityI subsetI)
    fix S assume "S \<in> ?L"
    then have S: "S \<subseteq> insert x (set xs)" "card S = Suc r" by auto
    then have fS: "finite S" by (auto intro: finite_subset[of _ "insert x (set xs)"])
    show "S \<in> ?A \<union> ?B"
    proof (cases "x \<in> S")
      case True
      then have "S = insert x (S - {x})" by auto
      moreover have "S - {x} \<subseteq> set xs" using S by auto
      moreover have "card (S - {x}) = r" using S True fS by simp
      ultimately show ?thesis by blast
    next
      case False
      with S show ?thesis by auto
    qed
  next
    fix S assume "S \<in> ?A \<union> ?B"
    then show "S \<in> ?L"
    proof
      assume "S \<in> ?A"
      then obtain T where T: "S = insert x T" "T \<subseteq> set xs" "card T = r" by auto
      then have "finite T" by (meson finite_set finite_subset)
      with T x show ?thesis by (auto simp: card_insert_if)
    next
      assume "S \<in> ?B" then show ?thesis by auto
    qed
  qed
  with a b show ?case by (simp add: image_Un)
qed

lemma distinct_map_set_combinations_nat:
  "distinct xs \<Longrightarrow> distinct (map set (combinations_nat xs k))"
proof (induction xs k rule: combinations_nat.induct)
  case (1 xs)
  then show ?case by simp
next
  case (2 r)
  then show ?case by simp
next
  case (3 x xs r)
  from "3.prems" have d: "distinct xs" and x: "x \<notin> set xs" by simp_all
  have sub: "\<And>cs k. cs \<in> set (combinations_nat xs k) \<Longrightarrow> x \<notin> set cs"
    using combinations_nat_elem x by blast
  have "inj_on (insert x) (set ` set (combinations_nat xs r))"
  proof (rule inj_onI)
    fix A B assume A: "A \<in> set ` set (combinations_nat xs r)"
      and B: "B \<in> set ` set (combinations_nat xs r)" and eq: "insert x A = insert x B"
    from A B sub have "x \<notin> A" "x \<notin> B" by auto
    with eq show "A = B" by (simp add: insert_ident)
  qed
  then have 1: "distinct (map (insert x) (map set (combinations_nat xs r)))"
    using "3.IH"(1)[OF d] by (simp add: distinct_map del: map_map)
  have 2: "distinct (map set (combinations_nat xs (Suc r)))" using "3.IH"(2)[OF d] .
  have 3: "set (map (insert x) (map set (combinations_nat xs r)))
           \<inter> set (map set (combinations_nat xs (Suc r))) = {}"
    using sub by auto
  have "map set (combinations_nat (x # xs) (Suc r))
        = map (insert x) (map set (combinations_nat xs r)) @ map set (combinations_nat xs (Suc r))"
    by simp
  with 1 2 3 show ?case by (simp only: distinct_append) 
qed

lemma iter_finite [simp]: "finite S \<Longrightarrow> set (iter S) = S"
  by (simp add: iter_def)

lemma distinct_iter [simp]: "distinct (iter S)"
  by (simp add: iter_def)











section \<open>Facts about the resolution of constraints\<close>

lemma getPossibleHands_completions:
  assumes "finite (possible_cards h)" "0 \<le> num_unknown_cards h"
  shows "\<exists>hands. getPossibleHands h = Inr hands \<and> set hands = completions h"
proof -
  define mk where "mk = (\<lambda>S. \<lparr>hand_size = hand_size h, known_cards = known_cards h \<union> S,
                   possible_cards = {}, constraint_list = []\<rparr>)"
  define cs where "cs = combinations_nat (iter (possible_cards h)) (nat (num_unknown_cards h))"
  define hands where "hands = filter (\<lambda>hand. meets_constraints (known_cards hand) (constraint_list h))
                  (map (\<lambda>new_cards. mk (set new_cards)) cs)"
  have g: "getPossibleHands h = Inr hands"
    using assms(2) by (simp add: getPossibleHands_def combinations_def hands_def cs_def mk_def)
  have "set ` set cs = {S. S \<subseteq> possible_cards h \<and> card S = nat (num_unknown_cards h)}"
    unfolding cs_def using set_combinations_nat[of "iter (possible_cards h)"] assms(1) by simp
  then have s: "S \<in> set ` set cs \<longleftrightarrow> S \<subseteq> possible_cards h \<and> int (card S) = num_unknown_cards h" for S
  proof -
    have "card S = nat (num_unknown_cards h) \<longleftrightarrow> int (card S) = num_unknown_cards h"
      using assms(2) by arith
    with \<open>set ` set cs = _\<close> show ?thesis by simp
  qed
  have k: "known_cards (mk S) = known_cards h \<union> S" for S by (simp add: mk_def)
  have "set hands = completions h"
  proof (intro equalityI subsetI)
    fix x assume "x \<in> set hands"
    then obtain c where c: "c \<in> set cs" "x = mk (set c)"
      "meets_constraints (known_cards h \<union> set c) (constraint_list h)"
      unfolding hands_def using k by auto
    from c(1) have "set c \<in> set ` set cs" by (rule imageI)
    with s have "set c \<subseteq> possible_cards h \<and> int (card (set c)) = num_unknown_cards h" by simp
    with c(2,3) show "x \<in> completions h"
      unfolding completions_def mk_def by blast
  next
    fix x assume "x \<in> completions h"
    then obtain S where S: "x = mk S" "S \<subseteq> possible_cards h" "int (card S) = num_unknown_cards h"
      "meets_constraints (known_cards h \<union> S) (constraint_list h)"
      unfolding completions_def mk_def by blast
    from S(2,3) s have "S \<in> set ` set cs" by simp
    then obtain c where "c \<in> set cs" "S = set c" by blast
    with S(1,4) k show "x \<in> set hands"
      unfolding hands_def by auto
  qed
  with g show ?thesis by blast
qed

lemma pairwise_disjoint_nth:
  "pairwise_disjoint As \<longleftrightarrow> (\<forall>i j. i < j \<and> j < length As \<longrightarrow> As ! i \<inter> As ! j = {})"
proof (induction As)
  case Nil
  then show ?case by simp
next
  case (Cons A As)
  let ?L = "\<forall>i j. i < j \<and> j < length (A # As) \<longrightarrow> (A # As) ! i \<inter> (A # As) ! j = {}"
  let ?R1 = "\<forall>j < length As. A \<inter> As ! j = {}"
  let ?R2 = "\<forall>i j. i < j \<and> j < length As \<longrightarrow> As ! i \<inter> As ! j = {}"
  have "?L \<longleftrightarrow> ?R1 \<and> ?R2"
  proof
    assume L: ?L
    have "A \<inter> As ! j = {}" if "j < length As" for j
      using L[rule_format, of 0 "Suc j"] that by simp
    moreover have "As ! i \<inter> As ! j = {}" if "i < j \<and> j < length As" for i j
      using L[rule_format, of "Suc i" "Suc j"] that by simp
    ultimately show "?R1 \<and> ?R2" by blast
  next
    assume R: "?R1 \<and> ?R2"
    show ?L
    proof (intro allI impI)
      fix i j assume ij: "i < j \<and> j < length (A # As)"
      then obtain j' where j': "j = Suc j'" "j' < length As" by (cases j) auto
      show "(A # As) ! i \<inter> (A # As) ! j = {}"
      proof (cases i)
        case 0
        with R j' show ?thesis by simp
      next
        case (Suc i')
        with ij j' have "i' < j' \<and> j' < length As" by simp
        with R have "As ! i' \<inter> As ! j' = {}" by blast
        with Suc j' show ?thesis by simp
      qed
    qed
  qed
  moreover have "A \<inter> \<Union>(set As) = {} \<longleftrightarrow> ?R1"
  proof
    assume a: "A \<inter> \<Union>(set As) = {}"
    show ?R1
    proof (intro allI impI)
      fix j assume "j < length As"
      then have "As ! j \<in> set As" by simp
      with a show "A \<inter> As ! j = {}" by blast
    qed
  next
    assume r: ?R1
    have "A \<inter> B = {}" if "B \<in> set As" for B
      using that r by (metis in_set_conv_nth)
    then show "A \<inter> \<Union>(set As) = {}" by blast
  qed
  ultimately show ?case using Cons.IH by simp
qed

lemma pairwise_disjoint_append:
  "pairwise_disjoint (As @ Bs) \<longleftrightarrow>
     pairwise_disjoint As \<and> pairwise_disjoint Bs \<and> \<Union>(set As) \<inter> \<Union>(set Bs) = {}"
  by (induction As) auto

lemma branch_loop_branches:
  "branch_loop recurse popped cs old_cards hand_infos0
     = hand_infos0 @ concat (map recurse (branches popped cs old_cards))"
  by (induction cs arbitrary: old_cards hand_infos0) (simp_all add: Let_def)

lemma removePossibleCards_fields [simp]:
  "known_cards (removePossibleCards h cs) = known_cards h"
  "possible_cards (removePossibleCards h cs) = possible_cards h - set cs"
  "hand_size (removePossibleCards h cs) = hand_size h"
  unfolding removePossibleCards_def
  by (induction cs arbitrary: h) (auto simp: removePossibleCard_def)

lemma addKnownCard_fields [simp]:
  "known_cards (addKnownCard h c) = insert c (known_cards h)"
  "possible_cards (addKnownCard h c) = possible_cards h - {c}"
  "hand_size (addKnownCard h c) = hand_size h"
  by (simp_all add: addKnownCard_def removePossibleCard_def)

lemma completions_known:
  assumes "H \<in> completions h"
  shows "known_cards h \<subseteq> known_cards H" "known_cards H \<subseteq> known_cards h \<union> possible_cards h"
  using assms by (auto simp: completions_def)

lemma completions_no_unknown:
  assumes "H \<in> completions h" "finite (possible_cards h)" "num_unknown_cards h = 0"
  shows "known_cards H = known_cards h"
proof -
  from assms(1) obtain S where S: "S \<subseteq> possible_cards h" "int (card S) = num_unknown_cards h"
    "known_cards H = known_cards h \<union> S" by (auto simp: completions_def)
  from S(1) assms(2) have "finite S" by (rule finite_subset)
  with S(2) assms(3) have "S = {}" by simp
  with S(3) show ?thesis by simp
qed

lemma branch_completions:
  assumes g: "good popped" and cP: "c \<in> possible_cards popped" and cK: "c \<notin> known_cards popped"
    and old: "set old \<inter> known_cards popped = {}" and cold: "c \<notin> set old"
  shows "completions (removePossibleCards (addKnownCard popped c) old)
         = {H \<in> completions popped. c \<in> known_cards H \<and> known_cards H \<inter> set old = {}}"
    (is "completions ?b = ?R")
proof -
  define K P u cl where "K = known_cards popped" and "P = possible_cards popped"
    and "u = num_unknown_cards popped" and "cl = constraint_list popped"
  from g have fK: "finite K" and fP: "finite P" by (simp_all add: good_def K_def P_def)
  have ub: "num_unknown_cards ?b = u - 1"
    using cK fK by (simp add: num_unknown_cards_def u_def K_def)
  have mk: "\<lparr>hand_size = hand_size ?b, known_cards = known_cards ?b \<union> S, possible_cards = {},
            constraint_list = []\<rparr>
          = \<lparr>hand_size = hand_size popped, known_cards = K \<union> insert c S, possible_cards = {},
            constraint_list = []\<rparr>" for S
    by (simp add: K_def)
  show ?thesis
  proof (intro equalityI subsetI)
    fix H assume "H \<in> completions ?b"
    then obtain S where S: "S \<subseteq> P - {c} - set old" "int (card S) = u - 1"
      "meets_constraints (insert c K \<union> S) cl"
      "H = \<lparr>hand_size = hand_size popped, known_cards = K \<union> insert c S, possible_cards = {},
            constraint_list = []\<rparr>"
      unfolding completions_def ub using mk by (auto simp: P_def K_def cl_def)
    from S(1) fP have fS: "finite S" by (auto intro: finite_subset)
    from S(1) have "c \<notin> S" by auto
    with fS S(2) have c1: "int (card (insert c S)) = u" by simp
    have c2: "insert c S \<subseteq> P" using S(1) cP by (auto simp: P_def)
    have c3: "meets_constraints (K \<union> insert c S) cl" using S(3) by simp
    from c1 c2 c3 S(4) have "H \<in> completions popped"
      unfolding completions_def K_def P_def u_def cl_def by blast
    moreover have "c \<in> known_cards H" using S(4) by simp
    moreover have "known_cards H \<inter> set old = {}" using S(1,4) old cold by (auto simp: K_def)
    ultimately show "H \<in> ?R" by simp
  next
    fix H assume "H \<in> ?R"
    then have Hc: "H \<in> completions popped" and cH: "c \<in> known_cards H"
      and Ho: "known_cards H \<inter> set old = {}" by simp_all
    from Hc obtain S where S: "S \<subseteq> P" "int (card S) = u" "meets_constraints (K \<union> S) cl"
      "H = \<lparr>hand_size = hand_size popped, known_cards = K \<union> S, possible_cards = {},
            constraint_list = []\<rparr>"
      unfolding completions_def K_def P_def u_def cl_def by blast
    from S(1) fP have fS: "finite S" by (auto intro: finite_subset)
    from cH S(4) cK have cS: "c \<in> S" by (auto simp: K_def)
    define S' where "S' = S - {c}"
    have s1: "S' \<subseteq> P - {c} - set old" using S(1,4) Ho by (auto simp: S'_def)
    have "card S > 0" using cS fS by (auto simp: card_gt_0_iff)
    then have s2: "int (card S') = u - 1" using S(2) cS fS by (simp add: S'_def of_nat_diff)
    have ins: "insert c S' = S" using cS by (auto simp: S'_def)
    have s3: "meets_constraints (insert c K \<union> S') cl"
      using S(3) ins[symmetric] by simp
    have s4: "H = \<lparr>hand_size = hand_size popped, known_cards = K \<union> insert c S', possible_cards = {},
            constraint_list = []\<rparr>" using S(4) ins by simp
    from s1 s2 s3 s4 show "H \<in> completions ?b"
      unfolding completions_def ub using mk[of S'] by (auto simp: P_def K_def cl_def)
  qed
qed

lemma good_branch:
  assumes "good popped" "c \<notin> known_cards popped" "num_unknown_cards popped \<noteq> 0"
  shows "good (removePossibleCards (addKnownCard popped c) old)"
proof -
  from assms(1) have "finite (known_cards popped)" "0 \<le> num_unknown_cards popped"
    by (simp_all add: good_def)
  with assms(2,3) have "0 \<le> num_unknown_cards (removePossibleCards (addKnownCard popped c) old)"
    by (simp add: num_unknown_cards_def)
  with assms(1) show ?thesis by (simp add: good_def)
qed

lemma branches_props:
  assumes "good popped" "set cs \<inter> known_cards popped = {}" "set old \<inter> known_cards popped = {}"
  shows "(\<forall>b \<in> set (branches popped cs old).
            good b \<and> constraint_list b = constraint_list popped)
       \<and> pairwise_disjoint (map completions (branches popped cs old))
       \<and> \<Union>(completions ` set (branches popped cs old))
           = {H \<in> completions popped. known_cards H \<inter> set old = {} \<and> known_cards H \<inter> set cs \<noteq> {}}"
  using assms(2,3)
proof (induction cs arbitrary: old)
  case Nil
  then show ?case by simp
next
  case (Cons c cs)
  from Cons.prems have cK: "c \<notin> known_cards popped" and csK: "set cs \<inter> known_cards popped = {}"
    by auto
  note IH = Cons.IH[OF csK]
  from assms(1) have fP: "finite (possible_cards popped)" by (simp add: good_def)
  let ?R = "\<lambda>old cs. {H \<in> completions popped. known_cards H \<inter> set old = {} \<and> known_cards H \<inter> set cs \<noteq> {}}"
  show ?case
  proof (cases "c \<notin> possible_cards popped \<or> num_unknown_cards popped = 0 \<or> c \<in> set old")
    case True
    then have br: "branches popped (c # cs) old = branches popped cs old"
      using cK by auto
    have "?R old (c # cs) = ?R old cs"
    proof -
      have "c \<notin> known_cards H" if "H \<in> completions popped" "known_cards H \<inter> set old = {}" for H
      proof -
        from True consider "c \<notin> possible_cards popped" | "num_unknown_cards popped = 0" | "c \<in> set old"
          by blast
        then show ?thesis
        proof cases
          case 1
          with completions_known(2)[OF that(1)] cK show ?thesis by blast
        next
          case 2
          with completions_no_unknown[OF that(1) fP] cK show ?thesis by simp
        next
          case 3
          with that(2) show ?thesis by blast
        qed
      qed
      then show ?thesis by auto
    qed
    with IH[OF Cons.prems(2)] br show ?thesis by simp
  next
    case False
    then have cP: "c \<in> possible_cards popped" and u: "num_unknown_cards popped \<noteq> 0"
      and cold: "c \<notin> set old" by simp_all
    let ?b = "removePossibleCards (addKnownCard popped c) old"
    have nk: "\<not> (\<exists>x \<in> set old. x \<in> known_cards (addKnownCard popped c))"
      using Cons.prems(2) cold by auto
    have br: "branches popped (c # cs) old = ?b # branches popped cs (old @ [c])"
      using cP u nk by simp
    have old': "set (old @ [c]) \<inter> known_cards popped = {}"
      using Cons.prems(2) cK by auto
    note IH' = IH[OF old']
    have cb: "completions ?b = {H \<in> completions popped. c \<in> known_cards H \<and> known_cards H \<inter> set old = {}}"
      by (rule branch_completions[OF assms(1) cP cK Cons.prems(2) cold])
    have rest: "\<Union>(completions ` set (branches popped cs (old @ [c]))) = ?R (old @ [c]) cs"
      using IH' by blast
    have 1: "\<forall>b \<in> set (branches popped (c # cs) old). good b \<and> constraint_list b = constraint_list popped"
      using IH' br good_branch[OF assms(1) cK u] by simp
    have 2: "pairwise_disjoint (map completions (branches popped (c # cs) old))"
    proof -
      have "completions ?b \<inter> ?R (old @ [c]) cs = {}" unfolding cb by auto
      with rest IH' show ?thesis unfolding br by simp
    qed
    have 3: "\<Union>(completions ` set (branches popped (c # cs) old)) = ?R old (c # cs)"
    proof -
      have "\<Union>(completions ` set (branches popped (c # cs) old)) = completions ?b \<union> ?R (old @ [c]) cs"
        unfolding br using rest by simp
      also have "\<dots> = ?R old (c # cs)" unfolding cb by auto
      finally show ?thesis .
    qed
    from 1 2 3 show ?thesis by blast
  qed
qed

lemma pairwise_disjoint_concat:
  assumes "pairwise_disjoint (map F bs)"
    and "\<And>b. b \<in> set bs \<Longrightarrow> pairwise_disjoint (map F (r b)) \<and> \<Union>(F ` set (r b)) = F b"
  shows "pairwise_disjoint (map F (concat (map r bs)))
       \<and> \<Union>(F ` set (concat (map r bs))) = \<Union>(F ` set bs)"
  using assms
proof (induction bs)
  case Nil
  then show ?case by simp
next
  case (Cons b bs)
  from Cons.prems(1) have d: "F b \<inter> \<Union>(F ` set bs) = {}" and pd: "pairwise_disjoint (map F bs)"
    by simp_all
  from Cons.IH[OF pd] Cons.prems(2)
  have ih: "pairwise_disjoint (map F (concat (map r bs)))"
    "\<Union>(F ` set (concat (map r bs))) = \<Union>(F ` set bs)" by simp_all
  from Cons.prems(2)[of b] have b: "pairwise_disjoint (map F (r b))" "\<Union>(F ` set (r b)) = F b"
    by simp_all
  have "\<Union>(set (map F (r b))) \<inter> \<Union>(set (map F (concat (map r bs)))) = {}"
    using d b(2) ih(2) by simp
  with b(1) ih(1) have "pairwise_disjoint (map F (r b) @ map F (concat (map r bs)))"
    by (simp only: pairwise_disjoint_append) 
  moreover have "\<Union>(F ` set (concat (map r (b # bs)))) = \<Union>(F ` set (b # bs))"
    using b(2) ih(2) by simp
  ultimately show ?case by simp
qed

lemma meets_constraints_snoc:
  "meets_constraints T (cl @ [c]) \<longleftrightarrow> meets_constraints T cl \<and> T \<inter> set c \<noteq> {}"
  by (auto simp: meets_constraints_def list_ex_iff)

lemma completions_pop:
  assumes "constraint_list h \<noteq> []"
  shows "completions h
       = {H \<in> completions (h\<lparr>constraint_list := butlast (constraint_list h)\<rparr>).
            known_cards H \<inter> set (last (constraint_list h)) \<noteq> {}}"
proof -
  define popped where "popped = h\<lparr>constraint_list := butlast (constraint_list h)\<rparr>"
  define c where "c = last (constraint_list h)"
  from assms have "butlast (constraint_list h) @ [last (constraint_list h)] = constraint_list h"
    by simp
  then have cl: "constraint_list h = constraint_list popped @ [c]"
    by (simp add: popped_def c_def)
  have f: "hand_size popped = hand_size h" "known_cards popped = known_cards h"
    "possible_cards popped = possible_cards h" "num_unknown_cards popped = num_unknown_cards h"
    by (simp_all add: popped_def num_unknown_cards_def)
  have "completions h = {H \<in> completions popped. known_cards H \<inter> set c \<noteq> {}}"
  proof (intro equalityI subsetI)
    fix H assume "H \<in> completions h"
    then obtain S where S: "S \<subseteq> possible_cards h" "int (card S) = num_unknown_cards h"
      "meets_constraints (known_cards h \<union> S) (constraint_list popped @ [c])"
      "H = \<lparr>hand_size = hand_size h, known_cards = known_cards h \<union> S, possible_cards = {},
            constraint_list = []\<rparr>"
      unfolding completions_def cl[symmetric] by blast
    from S(3) have m: "meets_constraints (known_cards h \<union> S) (constraint_list popped)"
      and n: "(known_cards h \<union> S) \<inter> set c \<noteq> {}"
      by (simp_all add: meets_constraints_snoc)
    from S(1,2,4) m have "H \<in> completions popped"
      unfolding completions_def f by blast
    moreover from n S(4) have "known_cards H \<inter> set c \<noteq> {}" by simp
    ultimately show "H \<in> {H \<in> completions popped. known_cards H \<inter> set c \<noteq> {}}" by simp
  next
    fix H assume "H \<in> {H \<in> completions popped. known_cards H \<inter> set c \<noteq> {}}"
    then have Hp: "H \<in> completions popped" and n: "known_cards H \<inter> set c \<noteq> {}" by simp_all
    from Hp obtain S where S: "S \<subseteq> possible_cards h" "int (card S) = num_unknown_cards h"
      "meets_constraints (known_cards h \<union> S) (constraint_list popped)"
      "H = \<lparr>hand_size = hand_size h, known_cards = known_cards h \<union> S, possible_cards = {},
            constraint_list = []\<rparr>"
      unfolding completions_def f by blast
    from n S(4) have "(known_cards h \<union> S) \<inter> set c \<noteq> {}" by simp
    with S(3) have "meets_constraints (known_cards h \<union> S) (constraint_list h)"
      unfolding cl by (simp add: meets_constraints_snoc)
    with S(1,2,4) show "H \<in> completions h"
      unfolding completions_def by blast
  qed
  then show ?thesis by (simp only: popped_def c_def)
qed

lemma satisfyConstraints_parts:
  "good h \<Longrightarrow>
     (\<forall>r \<in> set (satisfyConstraints h). good r \<and> constraint_list r = [])
     \<and> pairwise_disjoint (map completions (satisfyConstraints h))
     \<and> \<Union>(completions ` set (satisfyConstraints h)) = completions h"
proof (induction h rule: satisfyConstraints.induct)
  case (1 self)
  show ?case
  proof (cases "constraint_list self = []")
    case True
    then have "satisfyConstraints self = [self]" by (subst satisfyConstraints.simps) simp
    with True "1.prems" show ?thesis by simp
  next
    case False
    define popped where "popped = self\<lparr>constraint_list := butlast (constraint_list self)\<rparr>"
    define constraint where "constraint = last (constraint_list self)"
    have gp: "good popped" using "1.prems" by (simp add: good_def popped_def num_unknown_cards_def)
    have cs: "completions self = {H \<in> completions popped. known_cards H \<inter> set constraint \<noteq> {}}"
      unfolding popped_def constraint_def by (rule completions_pop[OF False])
    show ?thesis
    proof (cases "\<exists>crd \<in> set constraint. crd \<in> known_cards self")
      case True
      with False have eq: "satisfyConstraints self = satisfyConstraints popped"
        by (subst satisfyConstraints.simps) (simp add: popped_def constraint_def Let_def)
      from True False have ih: "(\<forall>r \<in> set (satisfyConstraints popped). good r \<and> constraint_list r = [])
         \<and> pairwise_disjoint (map completions (satisfyConstraints popped))
         \<and> \<Union>(completions ` set (satisfyConstraints popped)) = completions popped"
        unfolding popped_def constraint_def
        by (intro "1.IH"(1)[OF _ refl]) (use gp in \<open>simp_all add: popped_def\<close>)
      from True obtain crd where crd: "crd \<in> set constraint" "crd \<in> known_cards popped"
        by (auto simp: popped_def)
      have "completions self = completions popped"
        unfolding cs using completions_known(1)[of _ popped] crd by blast
      with ih eq show ?thesis by simp
    next
      case nk: False
      with False have eq: "satisfyConstraints self
          = concat (map satisfyConstraints (branches popped constraint []))"
        by (subst satisfyConstraints.simps)
           (simp add: popped_def constraint_def Let_def branch_loop_branches)
      from nk have disj: "set constraint \<inter> known_cards popped = {}" by (auto simp: popped_def)
      from branches_props[OF gp disj, of "[]"]
      have bg: "\<forall>b \<in> set (branches popped constraint []). good b \<and> constraint_list b = constraint_list popped"
        and bd: "pairwise_disjoint (map completions (branches popped constraint []))"
        and bu: "\<Union>(completions ` set (branches popped constraint []))
                 = {H \<in> completions popped. known_cards H \<inter> set constraint \<noteq> {}}"
        by simp_all
      have ih: "(\<forall>r \<in> set (satisfyConstraints b). good r \<and> constraint_list r = [])
         \<and> pairwise_disjoint (map completions (satisfyConstraints b))
         \<and> \<Union>(completions ` set (satisfyConstraints b)) = completions b"
        if "b \<in> set (branches popped constraint [])" for b
      proof (rule "1.IH"(2)[OF _ refl])
        show "length (constraint_list self) \<noteq> 0" using False by simp
        show "\<not> (\<exists>crd \<in> set (last (constraint_list self)). crd \<in> known_cards self)"
          using nk by (simp add: constraint_def)
        show "constraint_list b = constraint_list (self\<lparr>constraint_list := butlast (constraint_list self)\<rparr>)"
          using bg that by (simp add: popped_def)
        show "good b" using bg that by simp
      qed
      from pairwise_disjoint_concat[of completions "branches popped constraint []" satisfyConstraints, OF bd]
        ih
      have "pairwise_disjoint (map completions (concat (map satisfyConstraints (branches popped constraint []))))
        \<and> \<Union>(completions ` set (concat (map satisfyConstraints (branches popped constraint []))))
            = \<Union>(completions ` set (branches popped constraint []))"
        by blast
      moreover have "\<forall>r \<in> set (concat (map satisfyConstraints (branches popped constraint []))).
          good r \<and> constraint_list r = []"
        using ih by auto
      ultimately show ?thesis unfolding eq cs bu by blast
    qed
  qed
qed

lemma getPossibleHands_parts:
  assumes "\<forall>r \<in> set rs. good r"
  shows "\<exists>parts. map getPossibleHands rs = map Inr parts \<and> map set parts = map completions rs"
  using assms
proof (induction rs)
  case Nil
  then show ?case by simp
next
  case (Cons r rs)
  then obtain parts where p: "map getPossibleHands rs = map Inr parts"
    "map set parts = map completions rs" by auto
  from Cons.prems have "finite (possible_cards r)" "0 \<le> num_unknown_cards r"
    by (simp_all add: good_def)
  from getPossibleHands_completions[OF this] obtain hands where
    "getPossibleHands r = Inr hands" "set hands = completions r" by blast
  with p have "map getPossibleHands (r # rs) = map Inr (hands # parts)
      \<and> map set (hands # parts) = map completions (r # rs)" by simp
  then show ?case by blast
qed

section \<open>Properties of the resolution of constraints\<close>

text \<open>
  Claim C1: for a hand with finite sets that does not know more cards than its
  \<open>hand_size\<close> (every satisfiable hand is one), \<^verbatim>\<open>satisfyConstraints\<close> returns hands
  without constraints; \<^verbatim>\<open>getPossibleHands\<close> enumerates the completions of each of them
  and of the original hand; the sets of completions of two returned hands, at different
  positions of the list, share no hand; and their union is the set of the completions of
  the original hand, which are those that meet every constraint of its
  \<open>constraint_list\<close>.
\<close>

theorem satisfyConstraints_partition:
  assumes "finite (known_cards h)" "finite (possible_cards h)"
    and "int (card (known_cards h)) \<le> hand_size h"
  shows "\<exists>parts hands.
           map getPossibleHands (satisfyConstraints h) = map Inr parts
         \<and> getPossibleHands h = Inr hands
         \<and> (\<forall>r \<in> set (satisfyConstraints h). constraint_list r = [])
         \<and> (\<forall>i j. i < j \<and> j < length parts \<longrightarrow> set (parts ! i) \<inter> set (parts ! j) = {})
         \<and> \<Union>(set ` set parts) = set hands"
proof -
  from assms have g: "good h" by (simp add: good_def num_unknown_cards_def)
  from satisfyConstraints_parts[OF g]
  have r: "\<forall>r \<in> set (satisfyConstraints h). good r \<and> constraint_list r = []"
    and d: "pairwise_disjoint (map completions (satisfyConstraints h))"
    and u: "\<Union>(completions ` set (satisfyConstraints h)) = completions h"
    by simp_all
  from r getPossibleHands_parts[of "satisfyConstraints h"] obtain parts where
    p: "map getPossibleHands (satisfyConstraints h) = map Inr parts"
    and s: "map set parts = map completions (satisfyConstraints h)" by blast
  from g getPossibleHands_completions[of h] obtain hands where
    hs: "getPossibleHands h = Inr hands" "set hands = completions h"
    by (auto simp: good_def)
  from d s have "pairwise_disjoint (map set parts)" by simp
  then have dj: "\<forall>i j. i < j \<and> j < length parts \<longrightarrow> set (parts ! i) \<inter> set (parts ! j) = {}"
    unfolding pairwise_disjoint_nth by simp
  have "\<Union>(set ` set parts) = \<Union>(set (map set parts))" by simp
  also have "\<dots> = \<Union>(completions ` set (satisfyConstraints h))" unfolding s by simp
  finally have un: "\<Union>(set ` set parts) = set hands" using u hs(2) by simp
  from p hs(1) r dj un show ?thesis by blast
qed

theorem satisfyConstraints_partition_witness:
  "\<exists>parts hands.
      map getPossibleHands (satisfyConstraints
        \<lparr>hand_size = 2, known_cards = {}, possible_cards = {0, 1, 2, 3, 4, 5::int},
         constraint_list = [[0, 1, 2], [0, 2, 3]]\<rparr>) = map Inr parts
    \<and> getPossibleHands
        \<lparr>hand_size = 2, known_cards = {}, possible_cards = {0, 1, 2, 3, 4, 5::int},
         constraint_list = [[0, 1, 2], [0, 2, 3]]\<rparr> = Inr hands
    \<and> \<Union>(set ` set parts) = set hands"
  using satisfyConstraints_partition [of
        "\<lparr>hand_size = 2, known_cards = {}, possible_cards = {0, 1, 2, 3, 4, 5::int},
         constraint_list = [[0, 1, 2], [0, 2, 3]]\<rparr>"]
  by simp blast

section \<open>Facts about the number of states\<close>

lemma finite_subsets_of [simp]: "finite P \<Longrightarrow> finite (subsets_of P u)"
  by (simp add: subsets_of_def)

lemma without_without: "without S (without T p) = without (T \<union> S) p"
  by (auto simp: without_def)

lemma subsets_of_Diff: "{S2 \<in> subsets_of P u. S1 \<inter> S2 = {}} = subsets_of (P - S1) u"
  by (auto simp: subsets_of_def)

lemma cnt_swap:
  assumes "finite (snd a)" "finite (snd b)"
  shows "cnt (a # b # rest) = cnt (b # a # rest)"
proof -
  let ?A = "subsets_of (snd a) (fst a)" and ?B = "subsets_of (snd b) (fst b)"
  let ?g = "\<lambda>S1 S2. cnt (map (without (S1 \<union> S2)) rest)"
  have "cnt (a # b # rest) = (\<Sum>S1 \<in> ?A. \<Sum>S2 \<in> subsets_of (snd b - S1) (fst b). ?g S1 S2)"
    by (simp add: without_def[of _ b] without_without comp_def)
  also have "\<dots> = (\<Sum>S1 \<in> ?A. \<Sum>S2 \<in> {S2 \<in> ?B. S1 \<inter> S2 = {}}. ?g S1 S2)"
    by (simp only: subsets_of_Diff)
  also have "\<dots> = (\<Sum>S2 \<in> ?B. \<Sum>S1 \<in> {S1 \<in> ?A. S1 \<inter> S2 = {}}. ?g S1 S2)"
    using assms by (intro sum.swap_restrict) simp_all
  also have "\<dots> = (\<Sum>S2 \<in> ?B. \<Sum>S1 \<in> {S1 \<in> ?A. S2 \<inter> S1 = {}}. ?g S1 S2)"
    by (simp only: Int_commute)
  also have "\<dots> = (\<Sum>S2 \<in> ?B. \<Sum>S1 \<in> subsets_of (snd a - S2) (fst a). ?g S1 S2)"
    by (simp only: subsets_of_Diff)
  also have "\<dots> = cnt (b # a # rest)"
    by (simp add: without_def[of _ a] without_without comp_def Un_commute)
  finally show ?thesis .
qed

lemma finite_without: "finite (snd p) \<Longrightarrow> finite (snd (without S p))"
  by (simp add: without_def)

lemma cnt_move_to_front:
  assumes "i < length ps" "\<forall>p \<in> set ps. finite (snd p)"
  shows "cnt ps = cnt (ps ! i # (take i ps @ drop (Suc i) ps))"
  using assms
proof (induction i arbitrary: ps)
  case 0
  then show ?case by (cases ps) simp_all
next
  case (Suc j)
  then obtain a ps' where ps: "ps = a # ps'" by (cases ps) auto
  with Suc.prems have j: "j < length ps'" and fa: "finite (snd a)"
    and fps: "\<forall>p \<in> set ps'. finite (snd p)" by simp_all
  let ?rest = "take j ps' @ drop (Suc j) ps'"
  have "cnt ps = (\<Sum>S \<in> subsets_of (snd a) (fst a). cnt (map (without S) ps'))"
    by (simp add: ps)
  also have "\<dots> = (\<Sum>S \<in> subsets_of (snd a) (fst a). cnt (map (without S) (ps' ! j # ?rest)))"
  proof (rule sum.cong[OF refl])
    fix S
    have "cnt (map (without S) ps')
        = cnt (map (without S) ps' ! j # (take j (map (without S) ps') @ drop (Suc j) (map (without S) ps')))"
      using j fps by (intro Suc.IH) (auto simp: finite_without)
    also have "\<dots> = cnt (map (without S) (ps' ! j # ?rest))"
      using j by (simp add: take_map drop_map)
    finally show "cnt (map (without S) ps') = cnt (map (without S) (ps' ! j # ?rest))" .
  qed
  also have "\<dots> = cnt (a # ps' ! j # ?rest)" by simp
  also have "\<dots> = cnt (ps' ! j # a # ?rest)"
    using fa fps j by (intro cnt_swap) simp_all
  also have "\<dots> = cnt (ps ! Suc j # (take (Suc j) ps @ drop (Suc (Suc j)) ps))"
    by (simp add: ps)
  finally show ?case .
qed

lemma cnt_cong_mset_aux:
  "length ps = n \<Longrightarrow> mset ps = mset qs \<Longrightarrow> \<forall>p \<in> set ps. finite (snd p) \<Longrightarrow> cnt ps = cnt qs"
proof (induction n arbitrary: ps qs)
  case 0
  then show ?case by simp
next
  case (Suc n)
  from Suc.prems(2) have len: "length qs = length ps" by (metis size_mset)
  with Suc.prems(1) obtain b qs' where qs: "qs = b # qs'" by (cases qs) auto
  from Suc.prems(2) qs have "b \<in> set ps" by (metis list.set_intros(1) set_mset_mset)
  then obtain i where i: "i < length ps" "ps ! i = b" by (auto simp: in_set_conv_nth)
  let ?rest = "take i ps @ drop (Suc i) ps"
  have "ps = take i ps @ b # drop (Suc i) ps" using i id_take_nth_drop[of i ps] by simp
  then have "mset ps = add_mset b (mset ?rest)" by (metis mset.simps(2) mset_append union_mset_add_mset_right)
  with Suc.prems(2) qs have m: "mset ?rest = mset qs'" by simp
  have lr: "length ?rest = n" using Suc.prems(1) i by simp
  have fr: "\<forall>p \<in> set ?rest. finite (snd p)"
    using Suc.prems(3) by (auto dest: in_set_takeD in_set_dropD)
  have "cnt ps = cnt (b # ?rest)" using cnt_move_to_front[OF i(1) Suc.prems(3)] i(2) by simp
  also have "\<dots> = (\<Sum>S \<in> subsets_of (snd b) (fst b). cnt (map (without S) ?rest))" by simp
  also have "\<dots> = (\<Sum>S \<in> subsets_of (snd b) (fst b). cnt (map (without S) qs'))"
  proof (rule sum.cong[OF refl])
    fix S
    show "cnt (map (without S) ?rest) = cnt (map (without S) qs')"
    proof (rule Suc.IH)
      show "length (map (without S) ?rest) = n" using lr by simp
      show "mset (map (without S) ?rest) = mset (map (without S) qs')"
        using m by (metis mset_map)
      show "\<forall>p \<in> set (map (without S) ?rest). finite (snd p)"
      proof
        fix p assume "p \<in> set (map (without S) ?rest)"
        then obtain q where "q \<in> set ?rest" "p = without S q" by auto
        with fr show "finite (snd p)" by (simp add: finite_without)
      qed
    qed
  qed
  also have "\<dots> = cnt qs" by (simp add: qs)
  finally show ?case .
qed

lemma cnt_cong_mset:
  "mset ps = mset qs \<Longrightarrow> \<forall>p \<in> set ps. finite (snd p) \<Longrightarrow> cnt ps = cnt qs"
  using cnt_cong_mset_aux[OF refl] .

lemma bij_betw_image_subsets:
  assumes "inj_on f P"
  shows "bij_betw ((`) f) (subsets_of P u) (subsets_of (f ` P) u)"
  unfolding bij_betw_def
proof
  show "inj_on ((`) f) (subsets_of P u)"
  proof (rule inj_onI)
    fix S T assume "S \<in> subsets_of P u" "T \<in> subsets_of P u" "f ` S = f ` T"
    then have "S \<subseteq> P" "T \<subseteq> P" "f ` S = f ` T" by (simp_all add: subsets_of_def)
    with assms show "S = T" by (simp add: inj_on_image_eq_iff)
  qed
  show "(`) f ` subsets_of P u = subsets_of (f ` P) u"
  proof (intro equalityI subsetI)
    fix T assume "T \<in> (`) f ` subsets_of P u"
    then obtain S where S: "S \<subseteq> P" "card S = u" "T = f ` S" by (auto simp: subsets_of_def)
    from assms S(1) have "inj_on f S" by (rule inj_on_subset)
    then have "card (f ` S) = card S" by (rule card_image)
    with S show "T \<in> subsets_of (f ` P) u" by (simp add: subsets_of_def image_mono)
  next
    fix T assume "T \<in> subsets_of (f ` P) u"
    then have T: "T \<subseteq> f ` P" "card T = u" by (simp_all add: subsets_of_def)
    from T(1) obtain S where S: "S \<subseteq> P" "T = f ` S" by (auto simp: subset_image_iff)
    from assms S(1) have "inj_on f S" by (rule inj_on_subset)
    then have "card (f ` S) = card S" by (rule card_image)
    with S T(2) have "S \<in> subsets_of P u" by (simp add: subsets_of_def)
    with S(2) show "T \<in> (`) f ` subsets_of P u" by blast
  qed
qed

lemma cnt_relabel:
  assumes "inj_on f U" "\<forall>p \<in> set ps. snd p \<subseteq> U"
  shows "cnt (map (relabel f) ps) = cnt ps"
  using assms(2)
proof (induction ps rule: cnt.induct)
  case 1
  then show ?case by simp
next
  case (2 p rest)
  from "2.prems" have pU: "snd p \<subseteq> U" and rU: "\<forall>q \<in> set rest. snd q \<subseteq> U" by simp_all
  have inj_p: "inj_on f (snd p)" using assms(1) pU by (rule inj_on_subset)
  have bij: "bij_betw ((`) f) (subsets_of (snd p) (fst p)) (subsets_of (f ` snd p) (fst p))"
    by (rule bij_betw_image_subsets[OF inj_p])
  have step: "cnt (map (without (f ` S)) (map (relabel f) rest)) = cnt (map (without S) rest)"
    if "S \<in> subsets_of (snd p) (fst p)" for S
  proof -
    from that pU have SU: "S \<subseteq> U" by (auto simp: subsets_of_def)
    have "without (f ` S) (relabel f q) = relabel f (without S q)" if "q \<in> set rest" for q
    proof -
      from rU that have "snd q \<subseteq> U" by simp
      then have "snd q - S \<subseteq> U" by blast
      from inj_on_image_set_diff[OF assms(1) this SU]
      have "f ` snd q - f ` S = f ` (snd q - S)" by simp
      then show ?thesis unfolding without_def relabel_def by simp
    qed
    then have "map (without (f ` S)) (map (relabel f) rest) = map (relabel f) (map (without S) rest)"
      unfolding map_map by (intro map_cong[OF refl]) simp
    moreover have "cnt (map (relabel f) (map (without S) rest)) = cnt (map (without S) rest)"
    proof (rule "2.IH"[OF that])
      show "\<forall>q \<in> set (map (without S) rest). snd q \<subseteq> U"
      proof
        fix q assume "q \<in> set (map (without S) rest)"
        then obtain q' where "q' \<in> set rest" "q = without S q'" by auto
        with rU show "snd q \<subseteq> U" by (auto simp: without_def)
      qed
    qed
    ultimately show ?thesis by (simp only:)
  qed
  have rp: "relabel f p = (fst p, f ` snd p)" by (simp add: relabel_def)
  have "cnt (map (relabel f) (p # rest))
      = (\<Sum>T \<in> subsets_of (f ` snd p) (fst p). cnt (map (without T) (map (relabel f) rest)))"
    by (simp only: list.map cnt.simps rp fst_conv snd_conv)
  also have "\<dots> = (\<Sum>S \<in> subsets_of (snd p) (fst p). cnt (map (without (f ` S)) (map (relabel f) rest)))"
    by (rule sum.reindex_bij_betw[OF bij, symmetric])
  also have "\<dots> = (\<Sum>S \<in> subsets_of (snd p) (fst p). cnt (map (without S) rest))"
    by (rule sum.cong[OF refl step])
  also have "\<dots> = cnt (p # rest)" by (simp only: cnt.simps)
  finally show ?case .
qed

lemma cnt_single: "finite P \<Longrightarrow> cnt [(u, P)] = card P choose u"
  by (simp add: subsets_of_def n_subsets)

section \<open>Facts about the cache key\<close>

lemma fold_union_possible:
  "fold (\<lambda>info s. s \<union> possible_cards info) hs s0 = s0 \<union> \<Union>(possible_cards ` set hs)"
  by (induction hs arbitrary: s0) auto

lemma length_itertools_product:
  "length (itertools_product xss) = prod_list (map length xss)"
  by (induction xss) (simp_all add: length_concat comp_def sum_list_triv)

lemma length_product_repeat: "length (product_repeat [0, 1::nat] n) = 2 ^ n"
  by (simp add: product_repeat_def length_itertools_product prod_list_replicate numeral_2_eq_2)

lemma set_itertools_product:
  "set (itertools_product xss) = {ys. list_all2 (\<lambda>y xs. y \<in> set xs) ys xss}"
proof (induction xss)
  case Nil
  then show ?case by simp
next
  case (Cons xs xss)
  show ?case
  proof (intro equalityI subsetI)
    fix ys assume "ys \<in> set (itertools_product (xs # xss))"
    then obtain y ys' where "ys = y # ys'" "y \<in> set xs" "ys' \<in> set (itertools_product xss)"
      by auto
    with Cons.IH show "ys \<in> {ys. list_all2 (\<lambda>y xs. y \<in> set xs) ys (xs # xss)}" by simp
  next
    fix ys assume "ys \<in> {ys. list_all2 (\<lambda>y xs. y \<in> set xs) ys (xs # xss)}"
    then obtain y ys' where "ys = y # ys'" "y \<in> set xs" "list_all2 (\<lambda>y xs. y \<in> set xs) ys' xss"
      by (auto simp: list_all2_Cons2)
    with Cons.IH show "ys \<in> set (itertools_product (xs # xss))" by auto
  qed
qed

lemma set_product_repeat:
  "set (product_repeat xs n) = {ys. length ys = n \<and> set ys \<subseteq> set xs}"
proof -
  have "list_all2 (\<lambda>y zs. y \<in> set zs) ys (replicate n xs) \<longleftrightarrow> length ys = n \<and> set ys \<subseteq> set xs" for ys
  proof -
    have "list_all2 (\<lambda>y zs. y \<in> set zs) ys (replicate n xs)
        \<longleftrightarrow> length ys = n \<and> (\<forall>i < length ys. ys ! i \<in> set xs)"
      by (auto simp: list_all2_conv_all_nth)
    also have "(\<forall>i < length ys. ys ! i \<in> set xs) \<longleftrightarrow> (\<forall>y \<in> set ys. y \<in> set xs)"
      by (simp add: all_set_conv_all_nth)
    finally show ?thesis by blast
  qed
  then show ?thesis by (simp add: product_repeat_def set_itertools_product)
qed

lemma pattern_in_product: "pattern hs x \<in> set (product_repeat [0, 1] (length hs))"
  by (auto simp: set_product_repeat pattern_def)

lemma region_fold:
  assumes "set ts \<subseteq> {0, 1::nat}"
  shows "fold (\<lambda>(ix, t) subset.
             if t = 0 then subset - possible_cards (hs ! ix)
             else if t = 1 then subset \<inter> possible_cards (hs ! ix)
             else subset) (enumerate k ts) s
       = {x \<in> s. \<forall>i < length ts. (x \<in> possible_cards (hs ! (k + i))) = (ts ! i = 1)}"
  using assms
proof (induction ts arbitrary: k s)
  case Nil
  then show ?case by simp
next
  case (Cons t ts)
  define F where "F = (\<lambda>(ix, t) subset.
             if t = (0::nat) then subset - possible_cards (hs ! ix)
             else if t = 1 then subset \<inter> possible_cards (hs ! ix)
             else subset)"
  from Cons.prems have t: "t = 0 \<or> t = 1" and ts: "set ts \<subseteq> {0, 1}" by auto
  define s' where "s' = (if t = 0 then s - possible_cards (hs ! k) else s \<inter> possible_cards (hs ! k))"
  have ih: "fold F (enumerate (Suc k) ts) s'
      = {x \<in> s'. \<forall>i < length ts. (x \<in> possible_cards (hs ! (Suc k + i))) = (ts ! i = 1)}"
    unfolding F_def by (rule Cons.IH[OF ts])
  have step: "fold F (enumerate k (t # ts)) s = fold F (enumerate (Suc k) ts) s'"
    using t by (auto simp: F_def s'_def)
  have mem: "x \<in> s' \<longleftrightarrow> x \<in> s \<and> (x \<in> possible_cards (hs ! k)) = (t = 1)" for x
    using t by (auto simp: s'_def)
  have "{x \<in> s'. \<forall>i < length ts. (x \<in> possible_cards (hs ! (Suc k + i))) = (ts ! i = 1)}
      = {x \<in> s. \<forall>i < length (t # ts). (x \<in> possible_cards (hs ! (k + i))) = ((t # ts) ! i = 1)}"
  proof (intro equalityI subsetI)
    fix x assume "x \<in> {x \<in> s'. \<forall>i < length ts. (x \<in> possible_cards (hs ! (Suc k + i))) = (ts ! i = 1)}"
    then have x: "x \<in> s" "(x \<in> possible_cards (hs ! k)) = (t = 1)"
      and r: "\<And>i. i < length ts \<Longrightarrow> (x \<in> possible_cards (hs ! (Suc k + i))) = (ts ! i = 1)"
      using mem by simp_all
    have "(x \<in> possible_cards (hs ! (k + i))) = ((t # ts) ! i = 1)" if "i < length (t # ts)" for i
    proof (cases i)
      case 0
      with x(2) show ?thesis by simp
    next
      case (Suc j)
      with that r[of j] show ?thesis by simp
    qed
    with x(1) show "x \<in> {x \<in> s. \<forall>i < length (t # ts). (x \<in> possible_cards (hs ! (k + i))) = ((t # ts) ! i = 1)}"
      by blast
  next
    fix x assume "x \<in> {x \<in> s. \<forall>i < length (t # ts). (x \<in> possible_cards (hs ! (k + i))) = ((t # ts) ! i = 1)}"
    then have x: "x \<in> s"
      and r: "\<And>i. i < length (t # ts) \<Longrightarrow> (x \<in> possible_cards (hs ! (k + i))) = ((t # ts) ! i = 1)"
      by simp_all
    from r[of 0] have "(x \<in> possible_cards (hs ! k)) = (t = 1)" by simp
    with x mem have "x \<in> s'" by simp
    moreover have "(x \<in> possible_cards (hs ! (Suc k + i))) = (ts ! i = 1)" if "i < length ts" for i
      using r[of "Suc i"] that by simp
    ultimately show "x \<in> {x \<in> s'. \<forall>i < length ts. (x \<in> possible_cards (hs ! (Suc k + i))) = (ts ! i = 1)}"
      by blast
  qed
  with ih step show ?case unfolding F_def by simp
qed

lemma region_pattern:
  assumes "ts \<in> set (product_repeat [0, 1] (length hs))"
  shows "region U hs ts = {x \<in> U. pattern hs x = ts}"
proof -
  from assms have len: "length ts = length hs" and ts: "set ts \<subseteq> {0, 1}"
    by (auto simp: set_product_repeat)
  have "pattern hs x = ts \<longleftrightarrow> (\<forall>i < length ts. (x \<in> possible_cards (hs ! (0 + i))) = (ts ! i = 1))" for x
  proof -
    have "ts ! i = 0 \<or> ts ! i = 1" if "i < length ts" for i
      using ts that nth_mem by fastforce
    then have "(if x \<in> possible_cards (hs ! i) then 1 else 0) = ts ! i
        \<longleftrightarrow> (x \<in> possible_cards (hs ! i)) = (ts ! i = 1)" if "i < length ts" for i
      using that by (cases "x \<in> possible_cards (hs ! i)") auto
    then show ?thesis
      unfolding pattern_def list_eq_iff_nth_eq using len by simp
  qed
  with region_fold[OF ts, of hs 0 U] show ?thesis by (simp add: region_def)
qed

section \<open>The cache key determines the count\<close>

lemma getCacheKey_eq:
  "getCacheKey hs =
     map num_unknown_cards (sorted_hands hs)
     @ map (\<lambda>ts. int (card {x \<in> \<Union>(possible_cards ` set hs). pattern (sorted_hands hs) x = ts}))
           (product_repeat [0, 1] (length hs))"
proof -
  have s: "set (sorted_hands hs) = set hs" and l: "length (sorted_hands hs) = length hs"
    by (simp_all add: sorted_hands_def)
  have "map (\<lambda>ts. int (card (region (\<Union>(possible_cards ` set hs)) (sorted_hands hs) ts)))
            (product_repeat [0, 1] (length hs))
      = map (\<lambda>ts. int (card {x \<in> \<Union>(possible_cards ` set hs). pattern (sorted_hands hs) x = ts}))
            (product_repeat [0, 1] (length hs))"
    by (rule map_cong[OF refl]) (simp add: region_pattern l)
  then show ?thesis
    by (simp add: getCacheKey_def Let_def fold_union_possible s l)
qed

lemma two_power_inj: "n + 2 ^ n = m + 2 ^ m \<Longrightarrow> n = (m::nat)"
proof (rule ccontr)
  assume eq: "n + 2 ^ n = m + 2 ^ m" and ne: "n \<noteq> m"
  have lt: "a + 2 ^ a < b + 2 ^ b" if "a < b" for a b :: nat
  proof -
    from that have "(2::nat) ^ a \<le> 2 ^ b" by simp
    with that show ?thesis by linarith
  qed
  from ne consider "n < m" | "m < n" by linarith
  then show False
  proof cases
    case 1 with lt[of n m] eq show ?thesis by simp
  next
    case 2 with lt[of m n] eq show ?thesis by simp
  qed
qed

lemma length_sorted_hands: "length (sorted_hands zs) = length zs"
  by (simp add: sorted_hands_def)

lemma getCacheKey_same:
  assumes "getCacheKey hs = getCacheKey hs'"
  shows "length hs = length hs'"
    and "map num_unknown_cards (sorted_hands hs) = map num_unknown_cards (sorted_hands hs')"
    and "\<And>ts. ts \<in> set (product_repeat [0, 1] (length hs)) \<Longrightarrow>
           card {x \<in> \<Union>(possible_cards ` set hs). pattern (sorted_hands hs) x = ts}
         = card {x \<in> \<Union>(possible_cards ` set hs'). pattern (sorted_hands hs') x = ts}"
proof -
  let ?A = "map num_unknown_cards (sorted_hands hs)"
  let ?A' = "map num_unknown_cards (sorted_hands hs')"
  let ?f = "\<lambda>ts. int (card {x \<in> \<Union>(possible_cards ` set hs). pattern (sorted_hands hs) x = ts})"
  let ?f' = "\<lambda>ts. int (card {x \<in> \<Union>(possible_cards ` set hs'). pattern (sorted_hands hs') x = ts})"
  from assms have eq: "?A @ map ?f (product_repeat [0, 1] (length hs))
      = ?A' @ map ?f' (product_repeat [0, 1] (length hs'))"
    by (simp only: getCacheKey_eq)
  note l = length_sorted_hands
  have "length hs + 2 ^ length hs = length hs' + 2 ^ length hs'"
    using arg_cong[OF eq, of length]
    unfolding length_append length_map length_product_repeat l .
  then show len: "length hs = length hs'" by (rule two_power_inj)
  then have "length ?A = length ?A'" by (simp add: l)
  with eq show "?A = ?A'" by simp
  from eq \<open>length ?A = length ?A'\<close>
  have m: "map ?f (product_repeat [0, 1] (length hs)) = map ?f' (product_repeat [0, 1] (length hs))"
    using len by simp
  fix ts :: "nat list" assume "ts \<in> set (product_repeat [0, 1] (length hs))"
  with m have "?f ts = ?f' ts" by (simp only: map_eq_conv)
  then show "card {x \<in> \<Union>(possible_cards ` set hs). pattern (sorted_hands hs) x = ts}
         = card {x \<in> \<Union>(possible_cards ` set hs'). pattern (sorted_hands hs') x = ts}"
    by simp
qed

lemma key_sound:
  fixes hs hs' :: "'a::linorder HandInformation list"
  assumes key: "getCacheKey hs = getCacheKey hs'"
    and fin: "\<forall>h \<in> set hs. finite (possible_cards h)"
    and fin': "\<forall>h \<in> set hs'. finite (possible_cards h)"
    and nn: "\<forall>h \<in> set hs. 0 \<le> num_unknown_cards h"
    and nn': "\<forall>h \<in> set hs'. 0 \<le> num_unknown_cards h"
  shows "cnt (map hand_pair hs) = cnt (map hand_pair hs')"
proof -
  define xs where "xs = sorted_hands hs"
  define ys where "ys = sorted_hands hs'"
  define U where "U = \<Union>(possible_cards ` set hs)"
  define U' where "U' = \<Union>(possible_cards ` set hs')"
  define A where "A = (\<lambda>ts. {x \<in> U. pattern xs x = ts})"
  define B where "B = (\<lambda>ts. {x \<in> U'. pattern ys x = ts})"
  have mx: "mset xs = mset hs" and my: "mset ys = mset hs'"
    by (simp_all add: xs_def ys_def sorted_hands_def)
  have sx: "set xs = set hs" and sy: "set ys = set hs'"
    by (simp_all add: xs_def ys_def sorted_hands_def)
  have lx: "length xs = length hs" and ly: "length ys = length hs'"
    by (simp_all add: xs_def ys_def sorted_hands_def)
  from getCacheKey_same[OF key]
  have len: "length hs = length hs'"
    and unk: "map num_unknown_cards xs = map num_unknown_cards ys"
    and crd: "\<And>ts. ts \<in> set (product_repeat [0, 1] (length hs)) \<Longrightarrow> card (A ts) = card (B ts)"
    by (simp_all add: xs_def ys_def A_def B_def U_def U'_def)
  have finU: "finite U" and finU': "finite U'"
    using fin fin' by (auto simp: U_def U'_def)
  have finA: "finite (A ts)" and finB: "finite (B ts)" for ts
    using finU finU' by (simp_all add: A_def B_def)
  have card_eq: "card (A ts) = card (B ts)" for ts
  proof (cases "ts \<in> set (product_repeat [0, 1] (length hs))")
    case True
    then show ?thesis by (rule crd)
  next
    case False
    have "A ts = {}"
      using False pattern_in_product[of xs] by (auto simp: A_def lx)
    moreover have "B ts = {}"
      using False pattern_in_product[of ys] by (auto simp: B_def ly len)
    ultimately show ?thesis by simp
  qed
  have "\<forall>ts. \<exists>g. bij_betw g (A ts) (B ts)"
    using finite_same_card_bij[OF finA finB card_eq] by blast
  from choice[OF this] obtain G where G: "\<And>ts. bij_betw (G ts) (A ts) (B ts)"
    by blast
  define f where "f = (\<lambda>x. G (pattern xs x) x)"
  have fB: "f x \<in> B (pattern xs x)" if "x \<in> U" for x
  proof -
    from that have "x \<in> A (pattern xs x)" by (simp add: A_def)
    with G[of "pattern xs x"] show ?thesis
      unfolding f_def by (auto simp: bij_betw_def)
  qed
  have fpat: "pattern ys (f x) = pattern xs x" and fU: "f x \<in> U'" if "x \<in> U" for x
    using fB[OF that] by (simp_all add: B_def)
  have inj: "inj_on f U"
  proof (rule inj_onI)
    fix x y assume x: "x \<in> U" and y: "y \<in> U" and e: "f x = f y"
    from fpat[OF x] fpat[OF y] e have p: "pattern xs x = pattern xs y" by simp
    from x y p have "x \<in> A (pattern xs x)" "y \<in> A (pattern xs x)" by (simp_all add: A_def)
    moreover from e p have "G (pattern xs x) x = G (pattern xs x) y" by (simp add: f_def)
    ultimately show "x = y"
      using G[of "pattern xs x"] by (auto simp: bij_betw_def dest: inj_onD)
  qed
  have nth_pat: "pattern zs x ! i = (if x \<in> possible_cards (zs ! i) then 1 else 0)"
    if "i < length zs" for zs :: "'a HandInformation list" and x i
    using that by (simp add: pattern_def)
  have img: "f ` possible_cards (xs ! i) = possible_cards (ys ! i)" if i: "i < length xs" for i
  proof (intro equalityI subsetI)
    fix y assume "y \<in> f ` possible_cards (xs ! i)"
    then obtain x where x: "x \<in> possible_cards (xs ! i)" and y: "y = f x" by blast
    from x i have xU: "x \<in> U" unfolding U_def sx[symmetric] by (auto intro: nth_mem)
    from x i have "pattern xs x ! i = 1" by (simp add: nth_pat)
    with fpat[OF xU] have "pattern ys (f x) ! i = 1" by simp
    moreover from i have "i < length ys" by (simp add: lx ly len)
    ultimately show "y \<in> possible_cards (ys ! i)"
      unfolding y by (simp add: nth_pat split: if_splits)
  next
    fix y assume y: "y \<in> possible_cards (ys ! i)"
    from i have i': "i < length ys" by (simp add: lx ly len)
    from y i' have yU: "y \<in> U'" unfolding U'_def sy[symmetric] by (auto intro: nth_mem)
    then have "y \<in> B (pattern ys y)" by (simp add: B_def)
    with bij_betw_imp_surj_on[OF G[of "pattern ys y"]]
    have "y \<in> G (pattern ys y) ` A (pattern ys y)" by simp
    then obtain x where x: "x \<in> A (pattern ys y)" and gx: "G (pattern ys y) x = y"
      by (rule imageE) simp
    from x have xU: "x \<in> U" and px: "pattern xs x = pattern ys y" by (simp_all add: A_def)
    from gx px have fx: "f x = y" by (simp add: f_def)
    from y i' have "pattern ys y ! i = 1" by (simp add: nth_pat)
    with px have "pattern xs x ! i = 1" by simp
    with i have "x \<in> possible_cards (xs ! i)" by (simp add: nth_pat split: if_splits)
    with fx show "y \<in> f ` possible_cards (xs ! i)" by blast
  qed
  have "map (relabel f) (map hand_pair xs) = map hand_pair ys"
  proof (rule nth_equalityI)
    show "length (map (relabel f) (map hand_pair xs)) = length (map hand_pair ys)"
      by (simp add: lx ly len)
  next
    fix i assume "i < length (map (relabel f) (map hand_pair xs))"
    then have i: "i < length xs" by simp
    then have i': "i < length ys" by (simp add: lx ly len)
    from arg_cong[OF unk, of "\<lambda>l. l ! i"] i i'
    have "num_unknown_cards (xs ! i) = num_unknown_cards (ys ! i)"
      by simp
    with img[OF i] i i' show "map (relabel f) (map hand_pair xs) ! i = map hand_pair ys ! i"
      by (simp add: relabel_def hand_pair_def)
  qed
  moreover have "cnt (map (relabel f) (map hand_pair xs)) = cnt (map hand_pair xs)"
  proof (rule cnt_relabel[OF inj])
    show "\<forall>p \<in> set (map hand_pair xs). snd p \<subseteq> U"
      by (auto simp: hand_pair_def U_def sx)
  qed
  ultimately have "cnt (map hand_pair xs) = cnt (map hand_pair ys)" by simp
  moreover have "cnt (map hand_pair xs) = cnt (map hand_pair hs)"
    by (rule cnt_cong_mset) (use mx fin in \<open>auto simp: hand_pair_def sx\<close>)
  moreover have "cnt (map hand_pair ys) = cnt (map hand_pair hs')"
    by (rule cnt_cong_mset) (use my fin' in \<open>auto simp: hand_pair_def sy\<close>)
  ultimately show ?thesis by simp
qed

section \<open>What countPossibleStates returns\<close>

lemma sum_loop_value:
  assumes "\<And>c x. x \<in> set xs \<Longrightarrow> I c \<Longrightarrow> \<exists>c'. f c x = Inr (g x, c') \<and> I c'"
    and "I c"
  shows "\<exists>c'. sum_loop f xs count' c = Inr (count' + sum_list (map g xs), c') \<and> I c'"
  using assms
proof (induction xs arbitrary: count' c)
  case Nil
  then show ?case by simp
next
  case (Cons x xs)
  from Cons.prems(1)[of x c] Cons.prems(2)
  obtain c1 where f: "f c x = Inr (g x, c1)" "I c1" by auto
  have "\<exists>c'. sum_loop f xs (count' + g x) c1 = Inr (count' + g x + sum_list (map g xs), c') \<and> I c'"
    using Cons.prems(1) f by (intro Cons.IH) auto
  with f show ?case by (simp add: add.assoc)
qed

lemma sum_list_combinations:
  fixes g :: "'a::linorder set \<Rightarrow> int"
  assumes "finite P"
  shows "sum_list (map (\<lambda>hand. g (set hand)) (combinations_nat (iter P) u)) = (\<Sum>S \<in> subsets_of P u. g S)"
proof -
  let ?cs = "combinations_nat (iter P) u"
  have d: "distinct (map set ?cs)"
    by (rule distinct_map_set_combinations_nat) simp
  have "set (map set ?cs) = subsets_of P u"
    using set_combinations_nat[of "iter P" u] assms by (simp add: subsets_of_def iter_def)
  moreover have "sum_list (map (\<lambda>hand. g (set hand)) ?cs) = sum_list (map g (map set ?cs))"
    by (simp add: comp_def)
  ultimately show ?thesis
    using sum_list_distinct_conv_sum_set[OF d, of g] by simp
qed

lemma hand_pair_new_args:
  "map hand_pair (new_args hs idx S) = map (without S) (take idx (map hand_pair hs) @ drop (Suc idx) (map hand_pair hs))"
  by (simp add: new_args_eq hand_pair_def without_def num_unknown_cards_def take_map drop_map comp_def)

lemma plain_hands_new_args:
  assumes "plain_hands hs"
  shows "plain_hands (new_args hs idx S)"
  unfolding plain_hands_def
proof
  fix h' assume h': "h' \<in> set (new_args hs idx S)"
  from new_args_props[OF h'] obtain h where h: "h \<in> set hs" "hand_size h' = hand_size h"
    "known_cards h' = known_cards h" "possible_cards h' = possible_cards h - S"
    and c: "constraint_list h' = []" by blast
  from assms h(1) have "finite (possible_cards h)" "0 \<le> num_unknown_cards h"
    by (simp_all add: plain_hands_def)
  with h c show "finite (possible_cards h') \<and> 0 \<le> num_unknown_cards h' \<and> constraint_list h' = []"
    by (simp add: num_unknown_cards_def)
qed

lemma countPossibleStates_cnt:
  fixes hs0 :: "'a::linorder HandInformation list"
  shows "hs0 \<noteq> [] \<Longrightarrow> plain_hands hs0 \<Longrightarrow> cache_sound TYPE('a) c \<Longrightarrow>
   \<exists>c'. countPossibleStates c hs0 = Inr (int (cnt (map hand_pair hs0)), c') \<and> cache_sound TYPE('a) c'"
proof (induction c hs0 rule: countPossibleStates.induct)
  case (1 c hs)
  note pl = "1.prems"(2) and cs = "1.prems"(3)
  from pl have cf: "\<forall>h \<in> set hs. constraint_list h = []"
    and nn: "\<forall>h \<in> set hs. 0 \<le> num_unknown_cards h"
    and fin: "\<forall>h \<in> set hs. finite (possible_cards h)"
    by (simp_all add: plain_hands_def)
  from cf have nc: "\<not> (\<exists>h \<in> set hs. 0 < length (constraint_list h))" by simp
  show ?case
  proof (cases "length hs = 1")
    case True
    then obtain h where hs: "hs = [h]" by (cases hs) auto
    with cf nn fin have h: "constraint_list h = []" "0 \<le> num_unknown_cards h" "finite (possible_cards h)"
      by simp_all
    have "comb (int (card (possible_cards h))) (num_unknown_cards h)
        = int (card (possible_cards h) choose nat (num_unknown_cards h))"
      using h(2) by (auto simp: comb_def)
    moreover have "cnt (map hand_pair hs) = card (possible_cards h) choose nat (num_unknown_cards h)"
      using cnt_single[OF h(3), of "nat (num_unknown_cards h)"]
      by (simp only: hs hand_pair_def list.map)
    ultimately have "numPossibleHands (hs ! 0) = Inr (int (cnt (map hand_pair hs)))"
      using h(1) by (simp add: numPossibleHands_def hs)
    with True nc cs show ?thesis
      by (subst countPossibleStates.simps) simp
  next
    case False
    moreover from "1.prems"(1) have "length hs \<noteq> 0" by simp
    ultimately have len: "2 \<le> length hs" by arith
    show ?thesis
    proof (cases "c (getCacheKey hs)")
      case (Some v)
      with cs pl have "v = int (cnt (map hand_pair hs))" unfolding cache_sound_def by blast
      with Some False nc cs show ?thesis
        by (subst countPossibleStates.simps) simp
    next
      case None
      from select_hand_total[OF cf, of 0 0 None] "1.prems"(1)
      obtain idx num where sel: "select_hand (enumerate 0 hs) (0, None) = Inr (idx, num)"
        and idx: "idx < length hs" by auto
      from idx nn have u: "0 \<le> num_unknown_cards (hs ! idx)" by simp
      from idx fin have fP: "finite (possible_cards (hs ! idx))" by simp
      let ?P = "possible_cards (hs ! idx)"
      let ?u = "nat (num_unknown_cards (hs ! idx))"
      let ?hands = "combinations_nat (iter ?P) ?u"
      let ?rest = "take idx (map hand_pair hs) @ drop (Suc idx) (map hand_pair hs)"
      let ?g = "\<lambda>S. int (cnt (map (without S) ?rest))"
      from u have cmb: "combinations (iter ?P) (num_unknown_cards (hs ! idx)) = Inr ?hands"
        by (simp add: combinations_def)
      have step: "\<exists>c'. countPossibleStates c0 (new_args hs idx (set hand)) = Inr (?g (set hand), c')
            \<and> cache_sound TYPE('a) c'"
        if "hand \<in> set ?hands" "cache_sound TYPE('a) c0" for c0 hand
        unfolding hand_pair_new_args[symmetric]
      proof (rule "1.IH"[OF nc False refl None sel refl _ cmb that(1)])
        show "\<not> length hs \<le> idx" using idx by simp
        show "new_args hs idx (set hand) \<noteq> []"
          using length_new_args[OF idx, of "set hand"] len by auto
        show "plain_hands (new_args hs idx (set hand))"
          by (rule plain_hands_new_args[OF pl])
        show "cache_sound TYPE('a) c0" by fact
      qed
      from sum_loop_value[of ?hands "cache_sound TYPE('a)"
            "\<lambda>cache' hand. countPossibleStates cache' (new_args hs idx (set hand))"
            "\<lambda>hand. ?g (set hand)" c 0, OF step cs]
      obtain c' where sl: "sum_loop (\<lambda>cache' hand. countPossibleStates cache' (new_args hs idx (set hand)))
            ?hands 0 c = Inr (sum_list (map (\<lambda>hand. ?g (set hand)) ?hands), c')"
        and c': "cache_sound TYPE('a) c'"
        by auto
      have "sum_list (map (\<lambda>hand. ?g (set hand)) ?hands) = (\<Sum>S \<in> subsets_of ?P ?u. ?g S)"
        by (rule sum_list_combinations[OF fP])
      also have "\<dots> = int (cnt (map hand_pair hs ! idx # ?rest))"
        using idx by (simp add: hand_pair_def)
      also have "\<dots> = int (cnt (map hand_pair hs))"
        using cnt_move_to_front[of idx "map hand_pair hs"] idx fin
        by (simp add: hand_pair_def)
      finally have val: "sum_list (map (\<lambda>hand. ?g (set hand)) ?hands) = int (cnt (map hand_pair hs))" .
      have "cache_sound TYPE('a) (c'(getCacheKey hs \<mapsto> int (cnt (map hand_pair hs))))"
        unfolding cache_sound_def
      proof (intro allI impI)
        fix hs2 :: "'a HandInformation list" and v
        assume p2: "plain_hands hs2"
          and l: "(c'(getCacheKey hs \<mapsto> int (cnt (map hand_pair hs)))) (getCacheKey hs2) = Some v"
        show "v = int (cnt (map hand_pair hs2))"
        proof (cases "getCacheKey hs2 = getCacheKey hs")
          case True
          from p2 pl have "cnt (map hand_pair hs2) = cnt (map hand_pair hs)"
            by (intro key_sound[OF True]) (simp_all add: plain_hands_def)
          with True l show ?thesis by simp
        next
          case False
          with l have "c' (getCacheKey hs2) = Some v" by simp
          with c' p2 show ?thesis unfolding cache_sound_def by blast
        qed
      qed
      with None False nc sel idx cmb sl val show ?thesis
        by (subst countPossibleStates.simps) simp
    qed
  qed
qed

lemma cache_sound_empty: "cache_sound T Map.empty"
  by (simp add: cache_sound_def)

end
